theory Spec2Isabelle
  imports Main "HOL-Library.Word"
begin

section \<open>JavaScript strings\<close>

text \<open>
  A JavaScript string is a sequence of UTF-16 code units. The handlers of
  \<^verbatim>\<open>routes/groups.js\<close> and \<^verbatim>\<open>routes/students.js\<close> use four string
  operations: \<^verbatim>\<open>trim()\<close>, \<^verbatim>\<open>split(/\s+/)\<close>, \<^verbatim>\<open>join(' ')\<close> and
  \<^verbatim>\<open>toLowerCase()\<close>. The white space of \<^verbatim>\<open>trim\<close> and of the class
  \<^verbatim>\<open>\s\<close> is the same set of code points (ECMAScript WhiteSpace and
  LineTerminator), all of them single code units.
\<close>

type_synonym jsstring = "16 word list"

definition js :: "string \<Rightarrow> jsstring" where
  "js s = map of_char s"

definition isWhiteSpace :: "16 word \<Rightarrow> bool" where
  "isWhiteSpace c \<longleftrightarrow>
     (0x09 \<le> c \<and> c \<le> 0x0D) \<or> c = 0x20 \<or> c = 0xA0 \<or> c = 0x1680 \<or>
     (0x2000 \<le> c \<and> c \<le> 0x200A) \<or> c = 0x2028 \<or> c = 0x2029 \<or>
     c = 0x202F \<or> c = 0x205F \<or> c = 0x3000 \<or> c = 0xFEFF"

definition trim :: "jsstring \<Rightarrow> jsstring" where
  "trim s = rev (dropWhile isWhiteSpace (rev (dropWhile isWhiteSpace s)))"

text \<open>
  \<^verbatim>\<open>s.split(/\s+/)\<close>: the pieces of \<open>s\<close> between the maximal runs of white
  space. A run at the start or at the end of \<open>s\<close> leaves an empty piece there, and
  the empty string splits into one empty piece.
\<close>

function split_ws :: "jsstring \<Rightarrow> jsstring list" where
  "split_ws s =
     (let piece = takeWhile (\<lambda>c. \<not> isWhiteSpace c) s;
          rest = dropWhile (\<lambda>c. \<not> isWhiteSpace c) s
      in if rest = [] then [piece]
         else piece # split_ws (dropWhile isWhiteSpace rest))"
  by pat_completeness auto
termination
proof (relation "measure length")
  fix s :: jsstring and piece rest
  assume r: "rest = dropWhile (\<lambda>c. \<not> isWhiteSpace c) s" and ne: "rest \<noteq> []"
  have "length (dropWhile isWhiteSpace rest) < length rest"
  proof (cases rest)
    case Nil
    with ne show ?thesis by simp
  next
    case (Cons c cs)
    with r have "isWhiteSpace c"
      by (metis hd_dropWhile list.sel(1) ne)
    then have "dropWhile isWhiteSpace rest = dropWhile isWhiteSpace cs"
      using Cons by simp
    moreover have "length (dropWhile isWhiteSpace cs) \<le> length cs"
      by (rule length_dropWhile_le)
    ultimately show ?thesis using Cons by simp
  qed
  moreover have "length rest \<le> length s"
    using r by (simp add: length_dropWhile_le)
  ultimately show "(dropWhile isWhiteSpace rest, s) \<in> measure length"
    by simp
qed simp

declare split_ws.simps [simp del]

text \<open>\<^verbatim>\<open>parts.join(sep)\<close>.\<close>

fun join :: "jsstring \<Rightarrow> jsstring list \<Rightarrow> jsstring" where
  "join sep [] = []"
| "join sep [p] = p"
| "join sep (p # q # ps) = p @ sep @ join sep (q # ps)"

text \<open>
  \<^verbatim>\<open>toLowerCase()\<close>, on the letters A to Z; the other code units are
  left as they are (the Unicode case tables are not part of the repository).
\<close>

definition lowerUnit :: "16 word \<Rightarrow> 16 word" where
  "lowerUnit c = (if 0x41 \<le> c \<and> c \<le> 0x5A then c + 0x20 else c)"

definition toLowerCase :: "jsstring \<Rightarrow> jsstring" where
  "toLowerCase s = map lowerUnit s"

section \<open>Parent names\<close>

text \<open>
  \<^verbatim>\<open>normalizeParentName\<close> (the same function in \<^verbatim>\<open>routes/groups.js\<close>
  and in \<^verbatim>\<open>routes/students.js\<close>). The argument is \<open>None\<close> when the request
  gives no name (\<^verbatim>\<open>undefined\<close> or \<^verbatim>\<open>null\<close>).
\<close>

record nameParts =
  np_firstName :: jsstring
  np_lastName :: jsstring
  np_fullName :: jsstring

definition Lapsevanem :: jsstring where
  "Lapsevanem = js ''Lapsevanem''"

definition defaultName :: nameParts where
  "defaultName =
     \<lparr>np_firstName = Lapsevanem, np_lastName = [], np_fullName = Lapsevanem\<rparr>"

definition normalizeParentName :: "jsstring option \<Rightarrow> nameParts" where
  "normalizeParentName name =
     (case name of
        None \<Rightarrow> defaultName
      | Some n \<Rightarrow>
          if n = [] then defaultName
          else
            let cleaned = trim n in
            if length cleaned = 0 then defaultName
            else
              let parts = split_ws cleaned;
                  firstName = hd parts;
                  parts' = tl parts;
                  lastName = (if length parts' \<noteq> 0 then join (js '' '') parts' else [])
              in \<lparr>np_firstName = (if firstName \<noteq> [] then firstName else Lapsevanem),
                  np_lastName = lastName,
                  np_fullName = cleaned\<rparr>)"


text \<open>
  The words of the specification: the tokens of a string are its maximal runs of
  code units that are not white space, from left to right.
\<close>

fun tokens_acc :: "jsstring \<Rightarrow> jsstring \<Rightarrow> jsstring list" where
  "tokens_acc cur [] = (if cur = [] then [] else [cur])"
| "tokens_acc cur (c # cs) =
     (if isWhiteSpace c
      then (if cur = [] then tokens_acc [] cs else cur # tokens_acc [] cs)
      else tokens_acc (cur @ [c]) cs)"

definition tokens :: "jsstring \<Rightarrow> jsstring list" where
  "tokens s = tokens_acc [] s"

section \<open>Documents and the document store\<close>

text \<open>
  The three collections the handlers keep consistent, with the fields of the
  schemas \<^verbatim>\<open>models/Group.js\<close>, \<^verbatim>\<open>models/Student.js\<close> and
  \<^verbatim>\<open>models/Parent.js\<close>. An ObjectId is a natural number; an array of ids
  is a list (\<^verbatim>\<open>$addToSet\<close> appends, \<^verbatim>\<open>$pull\<close> removes every
  occurrence). A reference that is \<^verbatim>\<open>null\<close> or missing is \<open>None\<close>.
\<close>

type_synonym oid = nat

record group =
  g_name :: jsstring
  g_location :: jsstring
  g_description :: "jsstring option"
  g_teachers :: "oid list"
  g_students :: "oid list"
  g_parents :: "oid list"

record student =
  s_firstName :: jsstring
  s_lastName :: jsstring
  s_age :: int
  s_group :: "oid option"
  s_parent :: "oid option"
  s_parentName :: "jsstring option"
  s_parentEmail :: jsstring

record parent =
  p_firstName :: "jsstring option"
  p_lastName :: "jsstring option"
  p_email :: jsstring
  p_phone :: "jsstring option"
  p_students :: "oid list"

text \<open>
  The store: one map per collection, and the next ObjectId the driver will
  generate. Ids grow with time, so the natural order of a collection is the order
  of its ids; a query that scans a collection reads the ids below \<open>nextId\<close>.
\<close>

record db =
  groups :: "oid \<rightharpoonup> group"
  students :: "oid \<rightharpoonup> student"
  parents :: "oid \<rightharpoonup> parent"
  nextId :: oid

datatype status = OK200 | Created201 | BadRequest400 | Forbidden403 | NotFound404 | ServerError500

datatype role = Admin | Teacher | StudentUser | ParentUser

subsection \<open>Array operators and JavaScript sets\<close>

definition addToSet :: "oid \<Rightarrow> oid list \<Rightarrow> oid list" where
  "addToSet x xs = (if x \<in> set xs then xs else xs @ [x])"

definition pull :: "oid \<Rightarrow> oid list \<Rightarrow> oid list" where
  "pull x xs = filter (\<lambda>y. y \<noteq> x) xs"

text \<open>\<^verbatim>\<open>[...new Set(xs)]\<close>: the elements in the order of their first occurrence.\<close>

definition uniq :: "oid list \<Rightarrow> oid list" where
  "uniq xs = fold addToSet xs []"

subsection \<open>Schema setters and validators\<close>

text \<open>
  The schemas declare \<^verbatim>\<open>trim\<close> on every string and \<^verbatim>\<open>lowercase\<close> on the
  e-mail fields: a value is stored as the setters leave it. They declare as
  required a group's name and location, a student's first name, last name, age
  (at least 0) and parent e-mail, and a parent's e-mail; a required string is not
  empty. \<^verbatim>\<open>save()\<close> and \<^verbatim>\<open>create()\<close> throw a validation error on a document
  that breaks one of these, and the handler's \<^verbatim>\<open>catch\<close> answers 500. A thrown
  error is \<open>Inl d\<close>, with the store \<open>d\<close> as the writes before it left it.
\<close>

definition setEmail :: "jsstring \<Rightarrow> jsstring" where
  "setEmail e = trim (toLowerCase e)"

definition group_valid :: "group \<Rightarrow> bool" where
  "group_valid G \<longleftrightarrow> g_name G \<noteq> [] \<and> g_location G \<noteq> []"

definition student_valid :: "student \<Rightarrow> bool" where
  "student_valid st \<longleftrightarrow>
     s_firstName st \<noteq> [] \<and> s_lastName st \<noteq> [] \<and> 0 \<le> s_age st \<and> s_parentEmail st \<noteq> []"

definition parent_valid :: "parent \<Rightarrow> bool" where
  "parent_valid P \<longleftrightarrow> p_email P \<noteq> []"

subsection \<open>Queries and writes\<close>

text \<open>\<^verbatim>\<open>Group.updateOne({_id: g}, ...)\<close>: no write when the group is missing.\<close>

definition Group_updateOne :: "oid \<Rightarrow> (group \<Rightarrow> group) \<Rightarrow> db \<Rightarrow> db" where
  "Group_updateOne g f d =
     (case groups d g of
        None \<Rightarrow> d
      | Some G \<Rightarrow> d\<lparr>groups := (groups d)(g \<mapsto> f G)\<rparr>)"

definition pullStudent :: "oid \<Rightarrow> group \<Rightarrow> group" where
  "pullStudent s G = G\<lparr>g_students := pull s (g_students G)\<rparr>"

definition addStudent :: "oid \<Rightarrow> group \<Rightarrow> group" where
  "addStudent s G = G\<lparr>g_students := addToSet s (g_students G)\<rparr>"

definition pullParent :: "oid \<Rightarrow> group \<Rightarrow> group" where
  "pullParent p G = G\<lparr>g_parents := pull p (g_parents G)\<rparr>"

definition addParent :: "oid \<Rightarrow> group \<Rightarrow> group" where
  "addParent p G = G\<lparr>g_parents := addToSet p (g_parents G)\<rparr>"

text \<open>The ids of the students that match a filter, in natural order.\<close>

definition Student_find :: "(student \<Rightarrow> bool) \<Rightarrow> db \<Rightarrow> oid list" where
  "Student_find f d =
     filter (\<lambda>i. case students d i of None \<Rightarrow> False | Some st \<Rightarrow> f st) [0..<nextId d]"

definition Student_countDocuments :: "(student \<Rightarrow> bool) \<Rightarrow> db \<Rightarrow> nat" where
  "Student_countDocuments f d = length (Student_find f d)"

definition Group_countDocuments :: "(group \<Rightarrow> bool) \<Rightarrow> db \<Rightarrow> nat" where
  "Group_countDocuments f d =
     length (filter (\<lambda>i. case groups d i of None \<Rightarrow> False | Some G \<Rightarrow> f G) [0..<nextId d])"

text \<open>
  \<^verbatim>\<open>Student.find({group: g}).distinct('parent')\<close> followed by
  \<^verbatim>\<open>filter(Boolean)\<close>: the parents of the students of \<open>g\<close>, each once.
\<close>

definition studentParentIds :: "oid \<Rightarrow> db \<Rightarrow> oid list" where
  "studentParentIds g d =
     uniq (List.map_filter (\<lambda>i. case students d i of None \<Rightarrow> None | Some st \<Rightarrow> s_parent st)
             (Student_find (\<lambda>st. s_group st = Some g) d))"

text \<open>
  \<^verbatim>\<open>student.save()\<close> of a document loaded by the handler: the handler is the
  only writer of the document between the load and the save.
\<close>

definition Student_save :: "oid \<Rightarrow> student \<Rightarrow> db \<Rightarrow> db + db" where
  "Student_save s st d =
     (if student_valid st then Inr (d\<lparr>students := (students d)(s \<mapsto> st)\<rparr>) else Inl d)"

definition Student_create :: "student \<Rightarrow> db \<Rightarrow> db + (oid \<times> db)" where
  "Student_create st d =
     (if student_valid st
      then Inr (nextId d, d\<lparr>students := (students d)(nextId d \<mapsto> st), nextId := Suc (nextId d)\<rparr>)
      else Inl d)"

text \<open>
  \<^verbatim>\<open>Parent.findOne({email: e})\<close>: the first parent, in natural order, whose
  stored e-mail is the e-mail of the filter. The object mapper casts the value of
  a filter with the setters of the schema: this is \<open>q = True\<close>, the mapper the
  code runs on. A statement that is proved for every \<open>q\<close> holds as well for a
  mapper that matches the filter as it is given (\<open>q = False\<close>).
\<close>

definition castEmail :: "bool \<Rightarrow> jsstring \<Rightarrow> jsstring" where
  "castEmail q e = (if q then setEmail e else e)"

definition Parent_findOne :: "bool \<Rightarrow> jsstring \<Rightarrow> db \<Rightarrow> (oid \<times> parent) option" where
  "Parent_findOne q e d =
     (case List.find (\<lambda>i. case parents d i of None \<Rightarrow> False | Some P \<Rightarrow> p_email P = castEmail q e)
             [0..<nextId d] of
        None \<Rightarrow> None
      | Some i \<Rightarrow> map_option (Pair i) (parents d i))"

text \<open>
  \<^verbatim>\<open>Parent.create({firstName, lastName, email})\<close>; the result is the new id, the
  document as the handler holds it, and the store.
\<close>

definition Parent_create :: "jsstring \<Rightarrow> jsstring \<Rightarrow> jsstring \<Rightarrow> db \<Rightarrow> db + (oid \<times> parent \<times> db)" where
  "Parent_create fn ln e d =
     (let P = \<lparr>p_firstName = Some (trim fn), p_lastName = Some (trim ln),
                p_email = setEmail e, p_phone = None, p_students = []\<rparr>
      in if parent_valid P
         then Inr (nextId d, P, d\<lparr>parents := (parents d)(nextId d \<mapsto> P), nextId := Suc (nextId d)\<rparr>)
         else Inl d)"

text \<open>
  \<^verbatim>\<open>parent.save()\<close> writes the paths the handler modified: \<open>mem\<close> is the
  document as the handler holds it (the validators read it) and \<open>f\<close> is the
  modification. Saving a document that has been deleted throws.
\<close>

definition Parent_save :: "oid \<Rightarrow> parent \<Rightarrow> (parent \<Rightarrow> parent) \<Rightarrow> db \<Rightarrow> db + db" where
  "Parent_save p mem f d =
     (if \<not> parent_valid mem then Inl d
      else case parents d p of
             None \<Rightarrow> Inl d
           | Some P \<Rightarrow> Inr (d\<lparr>parents := (parents d)(p \<mapsto> f P)\<rparr>))"

definition Parent_deleteOne :: "oid \<Rightarrow> db \<Rightarrow> db" where
  "Parent_deleteOne p d = d\<lparr>parents := (parents d)(p := None)\<rparr>"


section \<open>The group routes (\<^verbatim>\<open>routes/groups.js\<close>)\<close>

definition ensureParentInGroup :: "oid \<Rightarrow> oid option \<Rightarrow> db \<Rightarrow> db" where
  "ensureParentInGroup groupId parentId d =
     (case parentId of
        None \<Rightarrow> d
      | Some p \<Rightarrow> Group_updateOne groupId (addParent p) d)"

definition removeParentFromGroupIfUnused :: "oid option \<Rightarrow> oid option \<Rightarrow> db \<Rightarrow> db" where
  "removeParentFromGroupIfUnused groupId parentId d =
     (case groupId of
        None \<Rightarrow> d
      | Some g \<Rightarrow>
          (case parentId of
             None \<Rightarrow> d
           | Some p \<Rightarrow>
               let remaining =
                     Student_countDocuments (\<lambda>st. s_group st = Some g \<and> s_parent st = Some p) d
               in if remaining = 0 then Group_updateOne g (pullParent p) d else d))"

subsection \<open>\<^verbatim>\<open>PATCH /api/groups/:id/full\<close>\<close>

text \<open>
  The body of the request. An entry of \<^verbatim>\<open>studentIds\<close> that is falsy
  (\<^verbatim>\<open>null\<close>, an empty string) is \<open>None\<close>; a \<^verbatim>\<open>studentIds\<close> or
  \<^verbatim>\<open>parents\<close> that is absent or not an array is the empty list. An entry of
  \<^verbatim>\<open>parents\<close> that is \<^verbatim>\<open>null\<close>, or has no e-mail, has the e-mail
  \<open>None\<close>.
\<close>

record parent_item =
  pi_email :: "jsstring option"
  pi_name :: "jsstring option"

record patch_body =
  b_name :: "jsstring option"
  b_location :: "jsstring option"
  b_description :: "jsstring option"
  b_studentIds :: "oid option list"
  b_parents :: "parent_item list"

definition requestedStudentIds :: "patch_body \<Rightarrow> oid list" where
  "requestedStudentIds body = uniq (List.map_filter (\<lambda>x. x) (b_studentIds body))"

text \<open>The loop over \<^verbatim>\<open>toRemove\<close>.\<close>

fun detachRemoved :: "oid \<Rightarrow> oid list \<Rightarrow> db \<Rightarrow> db + db" where
  "detachRemoved g [] d = Inr d"
| "detachRemoved g (studentId # rest) d =
     (case students d studentId of
        None \<Rightarrow> detachRemoved g rest d
      | Some st \<Rightarrow>
          (case Student_save studentId (st\<lparr>s_group := None\<rparr>) d of
             Inl e \<Rightarrow> Inl e
           | Inr d1 \<Rightarrow>
               detachRemoved g rest
                 (removeParentFromGroupIfUnused (Some g) (s_parent st)
                    (Group_updateOne g (pullStudent studentId) d1))))"

text \<open>The loop over \<^verbatim>\<open>toAssign\<close>.\<close>

definition leavePreviousGroup :: "oid \<Rightarrow> oid \<Rightarrow> student \<Rightarrow> db \<Rightarrow> db + db" where
  "leavePreviousGroup g studentId st d =
     (if s_group st \<noteq> Some g
      then Student_save studentId (st\<lparr>s_group := Some g\<rparr>)
             (case s_group st of
                None \<Rightarrow> d
              | Some previousGroupId \<Rightarrow>
                  removeParentFromGroupIfUnused (Some previousGroupId) (s_parent st)
                    (Group_updateOne previousGroupId (pullStudent studentId) d))
      else Inr d)"

fun assignRequested :: "oid \<Rightarrow> oid list \<Rightarrow> db \<Rightarrow> db + db" where
  "assignRequested g [] d = Inr d"
| "assignRequested g (studentId # rest) d =
     (case students d studentId of
        None \<Rightarrow> assignRequested g rest d
      | Some st \<Rightarrow>
          (case leavePreviousGroup g studentId st d of
             Inl e \<Rightarrow> Inl e
           | Inr d1 \<Rightarrow>
               assignRequested g rest
                 (ensureParentInGroup g (s_parent st)
                    (Group_updateOne g (addStudent studentId) d1))))"

text \<open>The loop of the branch with no requested student.\<close>

fun detachAll :: "oid \<Rightarrow> oid list \<Rightarrow> db \<Rightarrow> db + db" where
  "detachAll g [] d = Inr d"
| "detachAll g (studentId # rest) d =
     (case students d studentId of
        None \<Rightarrow> detachAll g rest d
      | Some st \<Rightarrow>
          (case Student_save studentId (st\<lparr>s_group := None\<rparr>) d of
             Inl e \<Rightarrow> Inl e
           | Inr d1 \<Rightarrow>
               detachAll g rest (removeParentFromGroupIfUnused (Some g) (s_parent st) d1)))"

text \<open>
  The roster: \<open>current\<close> is \<^verbatim>\<open>group.students\<close> as the handler loaded it. The
  result is the answer of an early return, or the store after the loops.
\<close>

definition replaceRoster :: "oid \<Rightarrow> oid list \<Rightarrow> oid list \<Rightarrow> db \<Rightarrow> (status \<times> db) + db" where
  "replaceRoster g current requested d =
     (if length requested \<noteq> 0
      then
        let foundStudents = filter (\<lambda>i. students d i \<noteq> None) requested in
        if length foundStudents \<noteq> length requested then Inl (BadRequest400, d)
        else
          let toRemove = filter (\<lambda>i. i \<notin> set requested) current in
          (case detachRemoved g toRemove d of
             Inl e \<Rightarrow> Inl (ServerError500, e)
           | Inr d1 \<Rightarrow>
               (case assignRequested g requested d1 of
                  Inl e \<Rightarrow> Inl (ServerError500, e)
                | Inr d2 \<Rightarrow> Inr d2))
      else
        (case detachAll g current d of
           Inl e \<Rightarrow> Inl (ServerError500, e)
         | Inr d1 \<Rightarrow> Inr d1))"

text \<open>
  The handlers bring the names of a parent up to date in the same way; they
  differ in the tests that guard the two assignments, which are \<open>setFirst\<close> and
  \<open>setLast\<close>. \<open>P\<close> is the document as the handler holds it.
\<close>

definition saveNames :: "bool \<Rightarrow> bool \<Rightarrow> oid \<Rightarrow> parent \<Rightarrow> nameParts \<Rightarrow> db \<Rightarrow> db + db" where
  "saveNames setFirst setLast p P n d =
     (if setFirst \<or> setLast
      then Parent_save p P
             (\<lambda>P'. P'\<lparr>p_firstName := (if setFirst then Some (np_firstName n) else p_firstName P'),
                       p_lastName := (if setLast then Some (np_lastName n) else p_lastName P')\<rparr>) d
      else Inr d)"

text \<open>
  One entry of \<^verbatim>\<open>parentPayload\<close> whose e-mail is there: find the parent or
  create it, and bring its names up to date. The result is the id of the parent.
\<close>

definition resolveParent :: "bool \<Rightarrow> jsstring \<Rightarrow> nameParts \<Rightarrow> db \<Rightarrow> db + (oid \<times> db)" where
  "resolveParent q email n d =
     (case Parent_findOne q email d of
        None \<Rightarrow>
          (case Parent_create (np_firstName n) (np_lastName n) email d of
             Inl e \<Rightarrow> Inl e
           | Inr (p, P, d1) \<Rightarrow> Inr (p, d1))
      | Some (p, P) \<Rightarrow>
          (case saveNames (np_firstName n \<noteq> [] \<and> p_firstName P \<noteq> Some (np_firstName n))
                  (p_lastName P \<noteq> Some (np_lastName n)) p P n d of
             Inl e \<Rightarrow> Inl e
           | Inr d1 \<Rightarrow> Inr (p, d1)))"

text \<open>The loop over \<^verbatim>\<open>parentPayload\<close>; \<open>ids\<close> is \<^verbatim>\<open>parentIdsSet\<close>.\<close>

fun resolveParents :: "bool \<Rightarrow> parent_item list \<Rightarrow> oid list \<Rightarrow> db \<Rightarrow> (status \<times> db) + (oid list \<times> db)" where
  "resolveParents q [] ids d = Inr (ids, d)"
| "resolveParents q (parentItem # rest) ids d =
     (case map_option (\<lambda>e. trim (toLowerCase e)) (pi_email parentItem) of
        None \<Rightarrow> Inl (BadRequest400, d)
      | Some email \<Rightarrow>
          if email = [] then Inl (BadRequest400, d)
          else
            (case resolveParent q email (normalizeParentName (pi_name parentItem)) d of
               Inl e \<Rightarrow> Inl (ServerError500, e)
             | Inr (p, d1) \<Rightarrow> resolveParents q rest (addToSet p ids) d1))"

text \<open>The loop over \<^verbatim>\<open>removedParentIds\<close>.\<close>

fun cleanupParents :: "oid \<Rightarrow> oid list \<Rightarrow> db \<Rightarrow> db" where
  "cleanupParents g [] d = d"
| "cleanupParents g (parentId # rest) d =
     (let d1 = removeParentFromGroupIfUnused (Some g) (Some parentId) d;
          stillReferenced =
            (Student_countDocuments (\<lambda>st. s_parent st = Some parentId) d1 > 0 \<or>
             Group_countDocuments (\<lambda>G. parentId \<in> set (g_parents G)) d1 > 0)
      in cleanupParents g rest (if \<not> stillReferenced then Parent_deleteOne parentId d1 else d1))"

text \<open>
  \<^verbatim>\<open>group.save()\<close> writes the paths the handler modified. The handler has
  assigned the name, the location, the description, the students and the parents
  of the document \<open>G\<close> it holds, and an assignment modifies a path when the
  value differs from the value of the document as it was loaded, \<open>L\<close>. A path
  that is not modified keeps what the store has, with the \<^verbatim>\<open>$pull\<close> and
  \<^verbatim>\<open>$addToSet\<close> the loops made since the load: \<open>savedGroup\<close> is the stored
  document \<open>G'\<close> after the write. The validators read \<open>G\<close>.
\<close>

definition savedGroup :: "group \<Rightarrow> group \<Rightarrow> group \<Rightarrow> group" where
  "savedGroup L G G' =
     G'\<lparr>g_name := (if g_name G = g_name L then g_name G' else g_name G),
        g_location := (if g_location G = g_location L then g_location G' else g_location G),
        g_description := (if g_description G = g_description L then g_description G' else g_description G),
        g_students := (if g_students G = g_students L then g_students G' else g_students G),
        g_parents := (if g_parents G = g_parents L then g_parents G' else g_parents G)\<rparr>"

definition Group_save :: "oid \<Rightarrow> group \<Rightarrow> group \<Rightarrow> db \<Rightarrow> db + db" where
  "Group_save g L G d =
     (if \<not> group_valid G then Inl d
      else case groups d g of
             None \<Rightarrow> Inl d
           | Some G' \<Rightarrow> Inr (d\<lparr>groups := (groups d)(g \<mapsto> savedGroup L G G')\<rparr>))"

definition editGroup :: "patch_body \<Rightarrow> group \<Rightarrow> group" where
  "editGroup body G =
     G\<lparr>g_name := (case b_name body of None \<Rightarrow> g_name G | Some n \<Rightarrow> trim n),
       g_location := (case b_location body of None \<Rightarrow> g_location G | Some l \<Rightarrow> trim l),
       g_description := (case b_description body of None \<Rightarrow> g_description G | Some t \<Rightarrow> Some (trim t))\<rparr>"

definition patchGroupFull :: "bool \<Rightarrow> role \<Rightarrow> oid \<Rightarrow> patch_body \<Rightarrow> db \<Rightarrow> status \<times> db" where
  "patchGroupFull q r g body d =
     (if r \<noteq> Admin then (Forbidden403, d)
      else
        (case groups d g of
           None \<Rightarrow> (NotFound404, d)
         | Some G0 \<Rightarrow>
             let G1 = editGroup body G0;
                 requested = requestedStudentIds body
             in
             (case replaceRoster g (g_students G1) requested d of
                Inl answer \<Rightarrow> answer
              | Inr d1 \<Rightarrow>
                  let G2 = G1\<lparr>g_students := requested\<rparr>;
                      parentIdsSet = uniq (studentParentIds g d1)
                  in
                  (case resolveParents q (b_parents body) parentIdsSet d1 of
                     Inl answer \<Rightarrow> answer
                   | Inr (finalParentIds, d2) \<Rightarrow>
                       let previousParentIds = g_parents G2;
                           removedParentIds = filter (\<lambda>i. i \<notin> set finalParentIds) previousParentIds
                       in
                       (case Group_save g G0 (G2\<lparr>g_parents := finalParentIds\<rparr>) d2 of
                          Inl e \<Rightarrow> (ServerError500, e)
                        | Inr d3 \<Rightarrow> (OK200, cleanupParents g removedParentIds d3))))))"

subsection \<open>\<^verbatim>\<open>DELETE /api/groups/:id\<close>\<close>

definition deleteGroup :: "role \<Rightarrow> oid \<Rightarrow> db \<Rightarrow> status \<times> db" where
  "deleteGroup r g d =
     (if r \<noteq> Admin then (Forbidden403, d)
      else
        (case groups d g of
           None \<Rightarrow> (NotFound404, d)
         | Some G \<Rightarrow>
             let d1 = d\<lparr>students := (\<lambda>i. case students d i of
                                             None \<Rightarrow> None
                                           | Some st \<Rightarrow> if s_group st = Some g then None else Some st)\<rparr>
             in (OK200, d1\<lparr>groups := (groups d1)(g := None)\<rparr>)))"


section \<open>The student routes (\<^verbatim>\<open>routes/students.js\<close>)\<close>

text \<open>
  The two helpers as this file declares them: here \<^verbatim>\<open>ensureParentInGroup\<close>
  also returns when the group is missing.
\<close>

definition ensureParentInGroup_s :: "oid option \<Rightarrow> oid option \<Rightarrow> db \<Rightarrow> db" where
  "ensureParentInGroup_s groupId parentId d =
     (case groupId of
        None \<Rightarrow> d
      | Some g \<Rightarrow> ensureParentInGroup g parentId d)"

record student_body =
  sb_firstName :: "jsstring option"
  sb_lastName :: "jsstring option"
  sb_age :: "int option"
  sb_groupId :: "oid option"
  sb_parentName :: "jsstring option"
  sb_parentEmail :: "jsstring option"

subsection \<open>\<^verbatim>\<open>POST /api/students\<close>\<close>

definition createStudent :: "bool \<Rightarrow> role \<Rightarrow> student_body \<Rightarrow> db \<Rightarrow> status \<times> db" where
  "createStudent q r body d =
     (if r \<noteq> Admin then (Forbidden403, d)
      else
        (case sb_parentEmail body of
           None \<Rightarrow> (BadRequest400, d)
         | Some parentEmail \<Rightarrow>
             if parentEmail = [] then (BadRequest400, d)
             else
               (case (case sb_groupId body of None \<Rightarrow> None
                      | Some g \<Rightarrow> map_option (\<lambda>G. g) (groups d g)) of
                  None \<Rightarrow> (NotFound404, d)
                | Some groupId \<Rightarrow>
                    let normalizedEmail = toLowerCase parentEmail;
                        n = normalizeParentName (sb_parentName body)
                    in
                    (case (case Parent_findOne q normalizedEmail d of
                             None \<Rightarrow> Parent_create (np_firstName n) (np_lastName n) normalizedEmail d
                           | Some (p, P) \<Rightarrow>
                               (case saveNames
                                       (np_firstName n \<noteq> [] \<and> p_firstName P \<noteq> Some (np_firstName n))
                                       (np_lastName n \<noteq> [] \<and> p_lastName P \<noteq> Some (np_lastName n))
                                       p P n d of
                                  Inl e \<Rightarrow> Inl e
                                | Inr d1 \<Rightarrow> Inr (p, P, d1))) of
                       Inl e \<Rightarrow> (ServerError500, e)
                     | Inr (p, P, d1) \<Rightarrow>
                         (case (case (sb_firstName body, sb_lastName body, sb_age body) of
                                  (Some fn, Some ln, Some a) \<Rightarrow>
                                    Student_create
                                      \<lparr>s_firstName = trim fn, s_lastName = trim ln, s_age = a,
                                       s_group = Some groupId, s_parent = Some p,
                                       s_parentName = Some (trim (np_fullName n)),
                                       s_parentEmail = setEmail normalizedEmail\<rparr> d1
                                | _ \<Rightarrow> Inl d1) of
                            Inl e \<Rightarrow> (ServerError500, e)
                          | Inr (s, d2) \<Rightarrow>
                              let d3 = Group_updateOne groupId (addStudent s) d2 in
                              (case (if s \<notin> set (p_students P)
                                     then Parent_save p P (\<lambda>P'. P'\<lparr>p_students := p_students P' @ [s]\<rparr>) d3
                                     else Inr d3) of
                                 Inl e \<Rightarrow> (ServerError500, e)
                               | Inr d4 \<Rightarrow>
                                   (Created201, ensureParentInGroup_s (Some groupId) (Some p) d4)))))))"

subsection \<open>\<^verbatim>\<open>PUT /api/students/:id\<close>\<close>

text \<open>The move to the requested group, when it is another group than the student's.\<close>

definition moveStudent :: "oid \<Rightarrow> student \<Rightarrow> oid option \<Rightarrow> db \<Rightarrow> (status \<times> db) + (student \<times> db)" where
  "moveStudent s st groupId d =
     (case groupId of
        None \<Rightarrow> Inr (st, d)
      | Some g \<Rightarrow>
          if s_group st = Some g then Inr (st, d)
          else
            (case groups d g of
               None \<Rightarrow> Inl (NotFound404, d)
             | Some newGroup \<Rightarrow>
                 let d1 = (case s_group st of
                             None \<Rightarrow> d
                           | Some originalGroupId \<Rightarrow> Group_updateOne originalGroupId (pullStudent s) d)
                 in Inr (st\<lparr>s_group := Some g\<rparr>, Group_updateOne g (addStudent s) d1)))"

text \<open>
  The change of parent, when the student has no parent or the e-mail of its parent
  is not the normalised e-mail of the request. \<open>currentParent\<close> and the parent of
  the result are documents as the handler holds them.
\<close>

definition switchParent ::
  "bool \<Rightarrow> oid \<Rightarrow> jsstring \<Rightarrow> nameParts \<Rightarrow> (oid \<times> parent) option \<Rightarrow> db \<Rightarrow> db + ((oid \<times> parent) \<times> db)" where
  "switchParent q s normalizedEmail n currentParent d =
     (case (case Parent_findOne q normalizedEmail d of
              None \<Rightarrow> Parent_create (np_firstName n) (np_lastName n) normalizedEmail d
            | Some (p, P) \<Rightarrow> Inr (p, P, d)) of
        Inl e \<Rightarrow> Inl e
      | Inr (nx, N, d1) \<Rightarrow>
          (case (case currentParent of
                   None \<Rightarrow> Inr d1
                 | Some (c, C) \<Rightarrow>
                     (case Parent_save c C (\<lambda>P'. P'\<lparr>p_students := pull s (p_students P')\<rparr>) d1 of
                        Inl e \<Rightarrow> Inl e
                      | Inr d2 \<Rightarrow>
                          Inr (if length (pull s (p_students C)) = 0 then Parent_deleteOne c d2 else d2))) of
             Inl e \<Rightarrow> Inl e
           | Inr d3 \<Rightarrow>
               if s \<notin> set (p_students N)
               then (case Parent_save nx N (\<lambda>P'. P'\<lparr>p_students := p_students P' @ [s]\<rparr>) d3 of
                       Inl e \<Rightarrow> Inl e
                     | Inr d4 \<Rightarrow> Inr ((nx, N\<lparr>p_students := p_students N @ [s]\<rparr>), d4))
               else Inr ((nx, N), d3)))"

text \<open>
  The part of the handler that reads \<^verbatim>\<open>parentEmail\<close> and \<^verbatim>\<open>parentName\<close>;
  the result is the student as the handler holds it, and the store.
\<close>

definition updateParent :: "bool \<Rightarrow> oid \<Rightarrow> student \<Rightarrow> student_body \<Rightarrow> db \<Rightarrow> db + (student \<times> db)" where
  "updateParent q s st body d =
     (let currentParent = (case s_parent st of
                             None \<Rightarrow> None
                           | Some p \<Rightarrow> map_option (Pair p) (parents d p));
          parentName = (case sb_parentName body of
                          None \<Rightarrow> None
                        | Some pn \<Rightarrow> if pn = [] then None else Some pn)
      in
      case (case sb_parentEmail body of
              None \<Rightarrow> None
            | Some pe \<Rightarrow> if pe = [] then None else Some pe) of
        Some parentEmail \<Rightarrow>
          let normalizedEmail = toLowerCase parentEmail;
              n = normalizeParentName (case parentName of None \<Rightarrow> s_parentName st | Some pn \<Rightarrow> Some pn)
          in
          (case (if (case currentParent of None \<Rightarrow> True | Some (c, C) \<Rightarrow> p_email C \<noteq> normalizedEmail)
                 then (case switchParent q s normalizedEmail n currentParent d of
                         Inl e \<Rightarrow> Inl e
                       | Inr ((nx, N), d1) \<Rightarrow> Inr (Some (nx, N), st\<lparr>s_parent := Some nx\<rparr>, d1))
                 else Inr (currentParent, st, d)) of
             Inl e \<Rightarrow> Inl e
           | Inr (currentParent', st1, d1) \<Rightarrow>
               (case (case currentParent' of
                        None \<Rightarrow> Inr d1
                      | Some (c, C) \<Rightarrow>
                          saveNames (np_firstName n \<noteq> [] \<and> p_firstName C \<noteq> Some (np_firstName n))
                            (p_lastName C \<noteq> Some (np_lastName n)) c C n d1) of
                  Inl e \<Rightarrow> Inl e
                | Inr d2 \<Rightarrow>
                    Inr (st1\<lparr>s_parentEmail := setEmail normalizedEmail,
                             s_parentName := Some (trim (np_fullName n))\<rparr>, d2)))
      | None \<Rightarrow>
          (case (parentName, currentParent) of
             (Some pn, Some (c, C)) \<Rightarrow>
               let n = normalizeParentName (Some pn) in
               (case saveNames (p_firstName C \<noteq> Some (np_firstName n))
                       (p_lastName C \<noteq> Some (np_lastName n)) c C n d of
                  Inl e \<Rightarrow> Inl e
                | Inr d1 \<Rightarrow> Inr (st\<lparr>s_parentName := Some (trim (np_fullName n))\<rparr>, d1))
           | _ \<Rightarrow> Inr (st, d)))"

text \<open>The calls after \<^verbatim>\<open>student.save()\<close>; \<open>st0\<close> is the student as loaded.\<close>

definition settleGroups :: "student \<Rightarrow> student \<Rightarrow> db \<Rightarrow> db" where
  "settleGroups st0 st d =
     (let d1 = (if s_parent st \<noteq> None then ensureParentInGroup_s (s_group st) (s_parent st) d else d);
          d2 = (if s_group st0 \<noteq> None \<and> s_group st \<noteq> s_group st0
                then removeParentFromGroupIfUnused (s_group st0) (s_parent st0) d1 else d1)
      in if s_parent st0 \<noteq> None \<and> s_parent st \<noteq> s_parent st0
         then (let targetGroupId = (if s_group st \<noteq> None then s_group st else s_group st0)
               in if targetGroupId \<noteq> None
                  then removeParentFromGroupIfUnused targetGroupId (s_parent st0) d2 else d2)
         else d2)"

definition updateStudent :: "bool \<Rightarrow> role \<Rightarrow> oid \<Rightarrow> student_body \<Rightarrow> db \<Rightarrow> status \<times> db" where
  "updateStudent q r s body d =
     (if r \<noteq> Admin then (Forbidden403, d)
      else
        (case students d s of
           None \<Rightarrow> (NotFound404, d)
         | Some st0 \<Rightarrow>
             let st1 = st0\<lparr>s_firstName := (case sb_firstName body of None \<Rightarrow> s_firstName st0 | Some fn \<Rightarrow> trim fn),
                           s_lastName := (case sb_lastName body of None \<Rightarrow> s_lastName st0 | Some ln \<Rightarrow> trim ln),
                           s_age := (case sb_age body of None \<Rightarrow> s_age st0 | Some a \<Rightarrow> a)\<rparr>
             in
             (case moveStudent s st1 (sb_groupId body) d of
                Inl answer \<Rightarrow> answer
              | Inr (st2, d1) \<Rightarrow>
                  (case updateParent q s st2 body d1 of
                     Inl e \<Rightarrow> (ServerError500, e)
                   | Inr (st3, d2) \<Rightarrow>
                       (case Student_save s st3 d2 of
                          Inl e \<Rightarrow> (ServerError500, e)
                        | Inr d3 \<Rightarrow> (OK200, settleGroups st0 st3 d3))))))"

subsection \<open>\<^verbatim>\<open>DELETE /api/students/:id\<close>\<close>

definition deleteStudent :: "role \<Rightarrow> oid \<Rightarrow> db \<Rightarrow> status \<times> db" where
  "deleteStudent r s d =
     (if r \<noteq> Admin then (Forbidden403, d)
      else
        (case students d s of
           None \<Rightarrow> (NotFound404, d)
         | Some st \<Rightarrow>
             let d1 = (case s_group st of
                         None \<Rightarrow> d
                       | Some g \<Rightarrow> Group_updateOne g (pullStudent s) d)
             in
             (case (case s_parent st of
                      None \<Rightarrow> Inr d1
                    | Some p \<Rightarrow>
                        (case (case parents d1 p of
                                 None \<Rightarrow> Inr d1
                               | Some P \<Rightarrow>
                                   (case Parent_save p P (\<lambda>P'. P'\<lparr>p_students := pull s (p_students P')\<rparr>) d1 of
                                      Inl e \<Rightarrow> Inl e
                                    | Inr d2 \<Rightarrow>
                                        Inr (if length (pull s (p_students P)) = 0
                                             then Parent_deleteOne p d2 else d2))) of
                           Inl e \<Rightarrow> Inl e
                         | Inr d3 \<Rightarrow> Inr (removeParentFromGroupIfUnused (s_group st) (Some p) d3))) of
                Inl e \<Rightarrow> (ServerError500, e)
              | Inr d4 \<Rightarrow> (OK200, d4\<lparr>students := (students d4)(s := None)\<rparr>))))"

section \<open>Notions for the statements\<close>

subsection \<open>What a handler leaves unchanged\<close>

text \<open>
  The store after a step that may throw, and after the roster loops and the
  parent loop of the bulk replace, whatever their result.
\<close>

definition outcome :: "db + db \<Rightarrow> db" where
  "outcome r = (case r of Inl e \<Rightarrow> e | Inr d \<Rightarrow> d)"

definition roster_store :: "(status \<times> db) + db \<Rightarrow> db" where
  "roster_store r = (case r of Inl (a, e) \<Rightarrow> e | Inr d \<Rightarrow> d)"

definition parents_store :: "(status \<times> db) + (oid list \<times> db) \<Rightarrow> db" where
  "parents_store r = (case r of Inl (a, e) \<Rightarrow> e | Inr (ids, d) \<Rightarrow> d)"

text \<open>
  The roster loops write the group of a student and the students and parents of a
  group: the rest of every document, the parents and the next id stay. The parent
  loop writes parents only, and ids only grow.
\<close>

definition student_rest :: "student \<Rightarrow> jsstring \<times> jsstring \<times> int \<times> oid option \<times> jsstring option \<times> jsstring" where
  "student_rest st =
     (s_firstName st, s_lastName st, s_age st, s_parent st, s_parentName st, s_parentEmail st)"

definition group_rest :: "group \<Rightarrow> jsstring \<times> jsstring \<times> jsstring option \<times> oid list" where
  "group_rest G = (g_name G, g_location G, g_description G, g_teachers G)"

definition same_but_rosters :: "db \<Rightarrow> db \<Rightarrow> bool" where
  "same_but_rosters d d' \<longleftrightarrow>
     parents d' = parents d \<and> nextId d' = nextId d \<and>
     (\<forall>s. map_option student_rest (students d' s) = map_option student_rest (students d s)) \<and>
     (\<forall>x. map_option group_rest (groups d' x) = map_option group_rest (groups d x))"

definition same_but_parents :: "db \<Rightarrow> db \<Rightarrow> bool" where
  "same_but_parents d d' \<longleftrightarrow>
     groups d' = groups d \<and> students d' = students d \<and> nextId d \<le> nextId d'"

text \<open>
  An entry of \<^verbatim>\<open>parentPayload\<close> has an e-mail when the handler's test
  \<^verbatim>\<open>!email\<close> is false: the e-mail is there and is not empty once lowercased
  and trimmed.
\<close>

definition hasEmail :: "parent_item \<Rightarrow> bool" where
  "hasEmail item = (case pi_email item of None \<Rightarrow> False | Some e \<Rightarrow> trim (toLowerCase e) \<noteq> [])"

definition itemEmail :: "parent_item \<Rightarrow> jsstring" where
  "itemEmail item = (case pi_email item of None \<Rightarrow> [] | Some e \<Rightarrow> trim (toLowerCase e))"

subsection \<open>The invariants of the specification\<close>

text \<open>
  Invariant 1: a student whose group is \<open>g\<close> is among the students of \<open>g\<close>.
  Invariant 2: a student whose parent is \<open>p\<close> is among the students of \<open>p\<close>,
  and \<open>p\<close> is among the parents of the student's group.
\<close>

definition inv_group :: "db \<Rightarrow> bool" where
  "inv_group d \<longleftrightarrow>
     (\<forall>s st g. students d s = Some st \<longrightarrow> s_group st = Some g \<longrightarrow>
        (\<exists>G. groups d g = Some G \<and> s \<in> set (g_students G)))"

definition inv_parent :: "db \<Rightarrow> bool" where
  "inv_parent d \<longleftrightarrow>
     (\<forall>s st p. students d s = Some st \<longrightarrow> s_parent st = Some p \<longrightarrow>
        (\<exists>P. parents d p = Some P \<and> s \<in> set (p_students P)) \<and>
        (\<forall>g. s_group st = Some g \<longrightarrow> (\<exists>G. groups d g = Some G \<and> p \<in> set (g_parents G))))"

text \<open>A sequence of requests of an administrator, and the answers it gets.\<close>

datatype operation =
  CreateStudent student_body
| UpdateStudent oid student_body
| ReplaceRoster oid patch_body

fun perform :: "bool \<Rightarrow> operation \<Rightarrow> db \<Rightarrow> status \<times> db" where
  "perform q (CreateStudent body) d = createStudent q Admin body d"
| "perform q (UpdateStudent s body) d = updateStudent q Admin s body d"
| "perform q (ReplaceRoster g body) d = patchGroupFull q Admin g body d"

fun run :: "bool \<Rightarrow> operation list \<Rightarrow> db \<Rightarrow> status list \<times> db" where
  "run q [] d = ([], d)"
| "run q (op1 # ops) d =
     (let (a, d1) = perform q op1 d; (as, d2) = run q ops d1 in (a # as, d2))"

subsection \<open>Well-formed stores\<close>

text \<open>
  Every student document of the store passes the validators of its schema, and
  every identifier in use was handed out by the store.
\<close>

definition students_valid :: "db \<Rightarrow> bool" where
  "students_valid d \<longleftrightarrow> (\<forall>s st. students d s = Some st \<longrightarrow> student_valid st)"

definition ids_below :: "db \<Rightarrow> bool" where
  "ids_below d \<longleftrightarrow>
     (\<forall>i. students d i \<noteq> None \<longrightarrow> i < nextId d) \<and>
     (\<forall>i. parents d i \<noteq> None \<longrightarrow> i < nextId d) \<and>
     (\<forall>i. groups d i \<noteq> None \<longrightarrow> i < nextId d)"

subsection \<open>A roster that the loops have settled\<close>

text \<open>The students and the parents a group lists.\<close>

definition studs :: "db \<Rightarrow> oid \<Rightarrow> oid set" where
  "studs d g = (case groups d g of None \<Rightarrow> {} | Some G \<Rightarrow> set (g_students G))"

definition pars :: "db \<Rightarrow> oid \<Rightarrow> oid set" where
  "pars d g = (case groups d g of None \<Rightarrow> {} | Some G \<Rightarrow> set (g_parents G))"

text \<open>
  \<open>removeParentFromGroupIfUnused g p\<close> has nothing to pull: the group does not
  list \<open>p\<close>, or a student of the group has this parent.
\<close>

definition parent_used :: "oid \<Rightarrow> oid \<Rightarrow> db \<Rightarrow> bool" where
  "parent_used g p d \<longleftrightarrow>
     (p \<in> pars d g \<longrightarrow>
        0 < Student_countDocuments (\<lambda>st. s_group st = Some g \<and> s_parent st = Some p) d)"

text \<open>
  The state of group \<open>g\<close> in which the roster loops for the requested list \<open>R\<close>
  find nothing to write. For a non-empty list: a listed student outside \<open>R\<close> has no
  document, and every student of \<open>R\<close> is in the group, listed by it, with its
  parent among the parents of the group. For the empty list: the listed students
  that still have a document are in no group and their parents have nothing to pull.
\<close>

definition roster_settled :: "oid \<Rightarrow> oid list \<Rightarrow> db \<Rightarrow> bool" where
  "roster_settled g R d \<longleftrightarrow>
     groups d g \<noteq> None \<and>
     (if R \<noteq> []
      then (\<forall>s\<in>studs d g. s \<notin> set R \<longrightarrow> students d s = None) \<and>
           (\<forall>s\<in>set R. \<exists>st. students d s = Some st \<and> s_group st = Some g \<and>
                s \<in> studs d g \<and> (\<forall>p. s_parent st = Some p \<longrightarrow> p \<in> pars d g))
      else (\<forall>s\<in>studs d g. \<forall>st. students d s = Some st \<longrightarrow>
              s_group st = None \<and> (\<forall>p. s_parent st = Some p \<longrightarrow> parent_used g p d)))"

subsection \<open>The names of an entry of the payload\<close>

definition itemNames :: "parent_item \<Rightarrow> nameParts" where
  "itemNames item = normalizeParentName (pi_name item)"

subsection \<open>Stores that are consistent but for some students\<close>

text \<open>
  The identifiers of the store are in order and invariants 1 and 2 hold for every
  student outside \<open>X\<close>: a handler works on one student at a time, whose references
  are out of step until its last write.
\<close>

definition consistent_but :: "oid set \<Rightarrow> db \<Rightarrow> bool" where
  "consistent_but X d \<longleftrightarrow>
     ids_below d \<and>
     (\<forall>s st. s \<notin> X \<longrightarrow> students d s = Some st \<longrightarrow>
        (\<forall>g. s_group st = Some g \<longrightarrow> s \<in> studs d g) \<and>
        (\<forall>p. s_parent st = Some p \<longrightarrow>
           (\<exists>P. parents d p = Some P \<and> s \<in> set (p_students P)) \<and>
           (\<forall>g. s_group st = Some g \<longrightarrow> p \<in> pars d g)))"

text \<open>
  The parent e-mail of a student update is the e-mail that is stored for it: where
  the filters of queries go through the schema setters (\<open>q\<close>), it has no white
  space around it.
\<close>

definition plain_email :: "bool \<Rightarrow> student_body \<Rightarrow> bool" where
  "plain_email q body \<longleftrightarrow>
     (case sb_parentEmail body of None \<Rightarrow> True | Some pe \<Rightarrow> q \<longrightarrow> trim pe = pe)"

definition plain_emails :: "bool \<Rightarrow> operation \<Rightarrow> bool" where
  "plain_emails q op1 =
     (case op1 of UpdateStudent s body \<Rightarrow> plain_email q body | _ \<Rightarrow> True)"

section \<open>Example stores and requests\<close>

definition pupil :: "jsstring \<Rightarrow> oid option \<Rightarrow> oid option \<Rightarrow> student" where
  "pupil nm g p =
     \<lparr>s_firstName = nm, s_lastName = js ''Tamm'', s_age = 9, s_group = g, s_parent = p,
      s_parentName = Some (js ''Mari Tamm''), s_parentEmail = js ''a@x.com''\<rparr>"

definition mari :: "oid list \<Rightarrow> parent" where
  "mari ss =
     \<lparr>p_firstName = Some (js ''Mari''), p_lastName = Some (js ''Tamm''),
      p_email = js ''a@x.com'', p_phone = None, p_students = ss\<rparr>"

definition club :: "jsstring \<Rightarrow> oid list \<Rightarrow> oid list \<Rightarrow> group" where
  "club nm ss ps =
     \<lparr>g_name = nm, g_location = js ''Tartu'', g_description = None, g_teachers = [7],
      g_students = ss, g_parents = ps\<rparr>"

text \<open>
  The scenario of the specification: group 1 with the students 2 and 3, both of
  parent 4, who has no other student.
\<close>

definition db_family :: db where
  "db_family =
     \<lparr>groups = [1 \<mapsto> club (js ''G'') [2, 3] [4]],
      students = [2 \<mapsto> pupil (js ''S1'') (Some 1) (Some 4), 3 \<mapsto> pupil (js ''S2'') (Some 1) (Some 4)],
      parents = [4 \<mapsto> mari [2, 3]],
      nextId = 5\<rparr>"

text \<open>Group 1 with student 2 of parent 4, and an empty group 5.\<close>

definition db_single :: db where
  "db_single =
     \<lparr>groups = [1 \<mapsto> club (js ''G'') [2] [4], 5 \<mapsto> club (js ''H'') [] []],
      students = [2 \<mapsto> pupil (js ''S1'') (Some 1) (Some 4)],
      parents = [4 \<mapsto> mari [2]],
      nextId = 6\<rparr>"

definition db_empty_group :: db where
  "db_empty_group =
     \<lparr>groups = [1 \<mapsto> club (js ''G'') [] []], students = Map.empty, parents = Map.empty, nextId = 2\<rparr>"

definition roster :: "oid option list \<Rightarrow> parent_item list \<Rightarrow> patch_body" where
  "roster ids ps =
     \<lparr>b_name = None, b_location = None, b_description = None, b_studentIds = ids, b_parents = ps\<rparr>"

definition anna :: parent_item where
  "anna = \<lparr>pi_email = Some (js '' Anna@X.com''), pi_name = Some (js ''Anna  Kask'')\<rparr>"

definition nameless :: parent_item where
  "nameless = \<lparr>pi_email = None, pi_name = Some (js ''Jaan Kask'')\<rparr>"

definition jaan :: parent_item where
  "jaan = \<lparr>pi_email = Some (js ''jaan@x.com''), pi_name = Some (js ''Jaan Kask'')\<rparr>"

definition no_change :: student_body where
  "no_change =
     \<lparr>sb_firstName = None, sb_lastName = None, sb_age = None, sb_groupId = None,
      sb_parentName = None, sb_parentEmail = None\<rparr>"

text \<open>The scenario: the roster of group 1 replaced by student 3, then by no student.\<close>

definition family_after_one :: "bool \<Rightarrow> status \<times> db" where
  "family_after_one q = patchGroupFull q Admin 1 (roster [Some 3] []) db_family"

definition family_after_two :: "bool \<Rightarrow> status \<times> db" where
  "family_after_two q = patchGroupFull q Admin 1 (roster [] []) (snd (family_after_one q))"

text \<open>A parent created by the payload of a bulk replace, and the group deleted.\<close>

definition orphan_after_delete :: "bool \<Rightarrow> status \<times> db" where
  "orphan_after_delete q =
     deleteGroup Admin 1 (snd (patchGroupFull q Admin 1 (roster [] [anna]) db_empty_group))"

text \<open>The e-mail of parent 4 with a space after it, and with a space before it.\<close>

definition padded_email :: student_body where
  "padded_email = no_change\<lparr>sb_parentEmail := Some (js ''a@x.com '')\<rparr>"

definition newcomer :: student_body where
  "newcomer =
     \<lparr>sb_firstName = Some (js ''Kati''), sb_lastName = Some (js ''Tamm''), sb_age = Some 7,
      sb_groupId = Some 1, sb_parentName = Some (js ''Mari Tamm''),
      sb_parentEmail = Some (js '' A@x.com'')\<rparr>"

text \<open>A move to group 5 with an age the schema refuses.\<close>

definition bad_age_move :: student_body where
  "bad_age_move = no_change\<lparr>sb_age := Some (- 1), sb_groupId := Some 5\<rparr>"


text \<open>
  Three requests that are served: student 2 moves to group 5 with another parent
  e-mail, the roster of group 1 is replaced by student 2 with a parent in the
  payload, and a student is created in group 1.
\<close>

definition move_to_other :: student_body where
  "move_to_other = no_change\<lparr>sb_groupId := Some 5, sb_parentEmail := Some (js ''B@x.com'')\<rparr>"

definition busy_day :: "operation list" where
  "busy_day =
     [UpdateStudent 2 move_to_other, ReplaceRoster 1 (roster [Some 2] [anna]),
      CreateStudent newcomer]"

text \<open>
  The two replaces of the scenario for any group, student and store: the roster
  becomes the student \<open>s\<close> alone, and then empty, with no parents in the payload.
\<close>

definition after_one :: "bool \<Rightarrow> oid \<Rightarrow> oid \<Rightarrow> db \<Rightarrow> status \<times> db" where
  "after_one q g s d = patchGroupFull q Admin g (roster [Some s] []) d"

definition after_two :: "bool \<Rightarrow> oid \<Rightarrow> oid \<Rightarrow> db \<Rightarrow> status \<times> db" where
  "after_two q g s d = patchGroupFull q Admin g (roster [] []) (snd (after_one q g s d))"

text \<open>
  A replace of the roster of group 1 by no student, with the parent of its two
  students in the payload, and the same request again.
\<close>

definition keep_mari :: parent_item where
  "keep_mari = \<lparr>pi_email = Some (js ''a@x.com''), pi_name = Some (js ''Mari Tamm'')\<rparr>"

definition family_once :: "status \<times> db" where
  "family_once = patchGroupFull True Admin 1 (roster [] [keep_mari]) db_family"

definition family_twice :: "status \<times> db" where
  "family_twice = patchGroupFull True Admin 1 (roster [] [keep_mari]) (snd family_once)"

text \<open>
  The update of student 2, the only student of parent 4, with the e-mail of its
  parent followed by a space, and then the creation of a student with the same
  e-mail in capitals after a space.
\<close>

definition single_update :: "status \<times> db" where
  "single_update = updateStudent True Admin 2 padded_email db_single"

definition single_then_create :: "status \<times> db" where
  "single_then_create = createStudent True Admin newcomer (snd single_update)"

section \<open>Properties of the string functions\<close>

lemma split_ws_Nil: "split_ws [] = [[]]"
  by (simp add: split_ws.simps)

lemma split_ws_ne: "split_ws s \<noteq> []"
  by (subst split_ws.simps) (simp add: Let_def)

lemma split_ws_space:
  "isWhiteSpace c \<Longrightarrow> split_ws (c # cs) = [] # split_ws (dropWhile isWhiteSpace cs)"
  by (subst split_ws.simps) simp

lemma split_ws_letter:
  "\<not> isWhiteSpace c \<Longrightarrow>
   split_ws (c # cs) = (c # hd (split_ws cs)) # tl (split_ws cs)"
  by (subst split_ws.simps, subst (2 3) split_ws.simps) (simp add: Let_def)

lemma filter_split_ws_dropWhile:
  "filter (\<lambda>p. p \<noteq> []) (split_ws (dropWhile isWhiteSpace s)) =
   filter (\<lambda>p. p \<noteq> []) (split_ws s)"
proof (induction s)
  case Nil
  show ?case by simp
next
  case (Cons c cs)
  show ?case
  proof (cases "isWhiteSpace c")
    case True
    then show ?thesis using Cons by (simp add: split_ws_space)
  next
    case False
    then show ?thesis by simp
  qed
qed

lemma tokens_acc_split_ws:
  "tokens_acc cur s =
   filter (\<lambda>p. p \<noteq> []) ((cur @ hd (split_ws s)) # tl (split_ws s))"
proof (induction s arbitrary: cur)
  case Nil
  show ?case by (simp add: split_ws_Nil)
next
  case (Cons c cs)
  show ?case
  proof (cases "isWhiteSpace c")
    case True
    have "tokens_acc [] cs = filter (\<lambda>p. p \<noteq> []) (split_ws cs)"
      using Cons [of "[]"] split_ws_ne [of cs] by (cases "split_ws cs") simp_all
    then show ?thesis
      using True by (simp add: split_ws_space filter_split_ws_dropWhile)
  next
    case False
    then show ?thesis
      using Cons [of "cur @ [c]"] by (simp add: split_ws_letter)
  qed
qed

lemma tokens_split_ws: "tokens s = filter (\<lambda>p. p \<noteq> []) (split_ws s)"
  using tokens_acc_split_ws [of "[]" s] split_ws_ne [of s]
  by (cases "split_ws s") (simp_all add: tokens_def)

lemma split_ws_pieces_nonempty:
  "t \<noteq> [] \<Longrightarrow> \<not> isWhiteSpace (hd t) \<Longrightarrow> \<not> isWhiteSpace (last t) \<Longrightarrow>
   list_all (\<lambda>p. p \<noteq> []) (split_ws t)"
proof (induction t rule: split_ws.induct)
  case (1 s)
  define rest where "rest = dropWhile (\<lambda>c. \<not> isWhiteSpace c) s"
  define nxt where "nxt = dropWhile isWhiteSpace rest"
  have piece: "takeWhile (\<lambda>c. \<not> isWhiteSpace c) s \<noteq> []"
    using "1.prems" by (cases s) simp_all
  show ?case
  proof (cases "rest = []")
    case True
    then show ?thesis
      using piece by (subst split_ws.simps) (simp add: rest_def)
  next
    case False
    have s_eq: "s = takeWhile (\<lambda>c. \<not> isWhiteSpace c) s @ takeWhile isWhiteSpace rest @ nxt"
      by (simp add: rest_def nxt_def)
    have nxt_ne: "nxt \<noteq> []"
    proof
      assume "nxt = []"
      then have "\<forall>c\<in>set rest. isWhiteSpace c"
        unfolding nxt_def by (simp add: dropWhile_eq_Nil_conv)
      moreover have "last s = last rest"
        using False by (metis rest_def takeWhile_dropWhile_id last_appendR)
      ultimately show False
        using False "1.prems"(3) last_in_set by metis
    qed
    have hd_nxt: "\<not> isWhiteSpace (hd nxt)"
      using nxt_ne unfolding nxt_def by (rule hd_dropWhile)
    have "last s = last nxt"
      using nxt_ne by (subst s_eq) simp
    then have last_nxt: "\<not> isWhiteSpace (last nxt)"
      using "1.prems"(3) by simp
    have "list_all (\<lambda>p. p \<noteq> []) (split_ws nxt)"
      using "1.IH" [OF refl refl False [unfolded rest_def]] nxt_ne hd_nxt last_nxt
      by (simp add: nxt_def rest_def)
    then show ?thesis
      using piece False
      by (subst split_ws.simps) (simp add: rest_def nxt_def Let_def)
  qed
qed

lemma trim_ends:
  assumes "trim s \<noteq> []"
  shows "\<not> isWhiteSpace (hd (trim s))" and "\<not> isWhiteSpace (last (trim s))"
proof -
  let ?a = "dropWhile isWhiteSpace s"
  let ?b = "dropWhile isWhiteSpace (rev ?a)"
  have b: "?b \<noteq> []" using assms by (simp add: trim_def)
  then have a: "?a \<noteq> []" by (cases "?a") simp_all
  have "\<not> isWhiteSpace (hd ?b)" using b by (rule hd_dropWhile)
  then show "\<not> isWhiteSpace (last (trim s))"
    using b by (simp add: trim_def last_rev)
  have ha: "\<not> isWhiteSpace (hd ?a)" using a by (rule hd_dropWhile)
  then have "\<not> isWhiteSpace (last (rev ?a))" using a by (simp add: last_rev)
  have "last ?b = last (rev ?a)"
    using b by (metis takeWhile_dropWhile_id last_appendR)
  then show "\<not> isWhiteSpace (hd (trim s))"
    using b a ha by (simp add: trim_def hd_rev last_rev)
qed

lemma trim_Nil_iff: "trim s = [] \<longleftrightarrow> list_all isWhiteSpace s"
proof
  assume "trim s = []"
  then have "dropWhile isWhiteSpace (rev (dropWhile isWhiteSpace s)) = []"
    by (simp add: trim_def)
  then have "\<forall>c\<in>set (dropWhile isWhiteSpace s). isWhiteSpace c"
    by (simp add: dropWhile_eq_Nil_conv)
  then have "dropWhile isWhiteSpace s = []"
    by (metis hd_dropWhile hd_in_set)
  then show "list_all isWhiteSpace s"
    by (simp add: dropWhile_eq_Nil_conv list_all_iff)
next
  assume "list_all isWhiteSpace s"
  then have "dropWhile isWhiteSpace s = []"
    by (simp add: list_all_iff)
  then show "trim s = []"
    unfolding trim_def by (simp only: rev.simps dropWhile.simps)
qed

lemma tokens_acc_clean:
  "list_all (\<lambda>c. \<not> isWhiteSpace c) cur \<Longrightarrow>
   list_all (\<lambda>t. t \<noteq> [] \<and> list_all (\<lambda>c. \<not> isWhiteSpace c) t) (tokens_acc cur s)"
  by (induction s arbitrary: cur) simp_all

lemma split_ws_trim:
  assumes "trim s \<noteq> []"
  shows "split_ws (trim s) = tokens (trim s)"
proof -
  have "list_all (\<lambda>p. p \<noteq> []) (split_ws (trim s))"
    using assms trim_ends [OF assms] by (rule split_ws_pieces_nonempty)
  then have "filter (\<lambda>p. p \<noteq> []) (split_ws (trim s)) = split_ws (trim s)"
    by (simp add: list_all_iff)
  then show ?thesis by (simp add: tokens_split_ws)
qed


lemma normalizeParentName_blank:
  "list_all isWhiteSpace s \<Longrightarrow> normalizeParentName (Some s) = defaultName"
proof -
  assume "list_all isWhiteSpace s"
  then have "trim s = []" by (simp add: trim_Nil_iff)
  then show ?thesis by (simp add: normalizeParentName_def)
qed

lemma normalizeParentName_named:
  assumes "\<not> list_all isWhiteSpace s"
  shows "normalizeParentName (Some s) =
        \<lparr>np_firstName = hd (tokens (trim s)),
         np_lastName = join (js '' '') (tl (tokens (trim s))),
         np_fullName = trim s\<rparr>"
    and "tokens (trim s) \<noteq> []"
    and "list_all (\<lambda>t. t \<noteq> [] \<and> list_all (\<lambda>c. \<not> isWhiteSpace c) t) (tokens (trim s))"
proof -
  have t: "trim s \<noteq> []" using assms by (simp add: trim_Nil_iff)
  then have s: "s \<noteq> []" by (auto simp: trim_def)
  have sp: "split_ws (trim s) = tokens (trim s)"
    using t by (rule split_ws_trim)
  show ne: "tokens (trim s) \<noteq> []"
    using split_ws_ne [of "trim s"] by (simp add: sp)
  show cl: "list_all (\<lambda>t. t \<noteq> [] \<and> list_all (\<lambda>c. \<not> isWhiteSpace c) t) (tokens (trim s))"
    unfolding tokens_def by (rule tokens_acc_clean) simp
  have "hd (tokens (trim s)) \<noteq> []"
    using ne cl by (cases "tokens (trim s)") simp_all
  moreover have "tl (tokens (trim s)) = [] \<Longrightarrow> join (js '' '') (tl (tokens (trim s))) = []"
    by simp
  ultimately show "normalizeParentName (Some s) =
        \<lparr>np_firstName = hd (tokens (trim s)),
         np_lastName = join (js '' '') (tl (tokens (trim s))),
         np_fullName = trim s\<rparr>"
    using t s by (simp add: normalizeParentName_def sp Let_def)
qed

lemma concat_spaced:
  "ts \<noteq> [] \<Longrightarrow> concat (map ((#) 0x20) ts) = 0x20 # join (js '' '') ts"
  by (induction "js '' ''" ts rule: join.induct) (simp_all add: js_def)

lemma join_space: "join (js '' '') ts = tl (concat (map ((#) 0x20) ts))"
  by (cases "ts = []") (simp_all add: concat_spaced)

lemma tokens_acc_concat:
  "concat (tokens_acc cur s) = cur @ filter (\<lambda>c. \<not> isWhiteSpace c) s"
  by (induction s arbitrary: cur) simp_all

lemma filter_trim:
  "filter (\<lambda>c. \<not> isWhiteSpace c) (trim s) = filter (\<lambda>c. \<not> isWhiteSpace c) s"
proof -
  have a: "filter (\<lambda>c. \<not> isWhiteSpace c) (dropWhile isWhiteSpace xs) =
      filter (\<lambda>c. \<not> isWhiteSpace c) xs" for xs
    by (induction xs) simp_all
  have "rev (filter (\<lambda>c. \<not> isWhiteSpace c) (trim s)) =
      rev (filter (\<lambda>c. \<not> isWhiteSpace c) s)"
    unfolding trim_def by (simp only: rev_rev_ident rev_filter [symmetric] a)
  then show ?thesis by simp
qed

text \<open>
  Claim C8. \<^verbatim>\<open>normalizeParentName\<close> splits the trimmed name on white space. The
  tokens are the maximal runs of code units that are not white space, so that they
  are not empty, hold no white space and, one after the other, are the name
  without its white space. The first token is the first name; the last name is the
  other tokens with one space (code unit 0x20) before each, less the first space,
  that is, joined by single spaces. A name that is missing, empty or all white
  space gives the placeholder \<^verbatim>\<open>Lapsevanem\<close> as first name and the empty last
  name.
\<close>

theorem normalizeParentName_tokens:
  "normalizeParentName None =
     \<lparr>np_firstName = js ''Lapsevanem'', np_lastName = [], np_fullName = js ''Lapsevanem''\<rparr> \<and>
   (list_all isWhiteSpace s \<longrightarrow>
      normalizeParentName (Some s) =
        \<lparr>np_firstName = js ''Lapsevanem'', np_lastName = [], np_fullName = js ''Lapsevanem''\<rparr>) \<and>
   (\<not> list_all isWhiteSpace s \<longrightarrow>
      normalizeParentName (Some s) =
        \<lparr>np_firstName = hd (tokens (trim s)),
         np_lastName = tl (concat (map ((#) 0x20) (tl (tokens (trim s))))),
         np_fullName = trim s\<rparr> \<and>
      tokens (trim s) \<noteq> [] \<and>
      list_all (\<lambda>t. t \<noteq> [] \<and> list_all (\<lambda>c. \<not> isWhiteSpace c) t) (tokens (trim s)) \<and>
      concat (tokens (trim s)) = filter (\<lambda>c. \<not> isWhiteSpace c) s)"
proof (intro conjI impI)
  show "normalizeParentName None =
     \<lparr>np_firstName = js ''Lapsevanem'', np_lastName = [], np_fullName = js ''Lapsevanem''\<rparr>"
    by (simp add: normalizeParentName_def defaultName_def Lapsevanem_def)
next
  assume "list_all isWhiteSpace s"
  then show "normalizeParentName (Some s) =
     \<lparr>np_firstName = js ''Lapsevanem'', np_lastName = [], np_fullName = js ''Lapsevanem''\<rparr>"
    by (simp add: normalizeParentName_blank defaultName_def Lapsevanem_def)
next
  assume a: "\<not> list_all isWhiteSpace s"
  show "normalizeParentName (Some s) =
        \<lparr>np_firstName = hd (tokens (trim s)),
         np_lastName = tl (concat (map ((#) 0x20) (tl (tokens (trim s))))),
         np_fullName = trim s\<rparr>"
    using normalizeParentName_named(1) [OF a] by (simp add: join_space)
  show "tokens (trim s) \<noteq> []"
    by (rule normalizeParentName_named(2) [OF a])
  show "list_all (\<lambda>t. t \<noteq> [] \<and> list_all (\<lambda>c. \<not> isWhiteSpace c) t) (tokens (trim s))"
    by (rule normalizeParentName_named(3) [OF a])
  show "concat (tokens (trim s)) = filter (\<lambda>c. \<not> isWhiteSpace c) s"
    by (simp add: tokens_def tokens_acc_concat filter_trim)
qed

theorem normalizeParentName_tokens_witness:
  "\<not> list_all isWhiteSpace (js ''  J'' @ [0xFC] @ js ''ri Tamm  '') \<and>
   normalizeParentName (Some (js ''  J'' @ [0xFC] @ js ''ri Tamm  '')) =
     \<lparr>np_firstName = js ''J'' @ [0xFC] @ js ''ri'',
      np_lastName = js ''Tamm'',
      np_fullName = js ''J'' @ [0xFC] @ js ''ri Tamm''\<rparr> \<and>
   \<not> list_all isWhiteSpace (js '' Anna'' @ [0x09, 0x20] @ js ''Maria'' @ [0xA0] @ js ''Kask'') \<and>
   normalizeParentName (Some (js '' Anna'' @ [0x09, 0x20] @ js ''Maria'' @ [0xA0] @ js ''Kask'')) =
     \<lparr>np_firstName = js ''Anna'',
      np_lastName = js ''Maria Kask'',
      np_fullName = js ''Anna'' @ [0x09, 0x20] @ js ''Maria'' @ [0xA0] @ js ''Kask''\<rparr> \<and>
   list_all isWhiteSpace (js ''   '') \<and>
   normalizeParentName (Some (js ''   '')) =
     \<lparr>np_firstName = js ''Lapsevanem'', np_lastName = [], np_fullName = js ''Lapsevanem''\<rparr>"
proof -
  have a: "\<not> list_all isWhiteSpace (js ''  J'' @ [0xFC] @ js ''ri Tamm  '')"
    "trim (js ''  J'' @ [0xFC] @ js ''ri Tamm  '') = js ''J'' @ [0xFC] @ js ''ri Tamm''"
    "tokens (js ''J'' @ [0xFC] @ js ''ri Tamm'') = [js ''J'' @ [0xFC] @ js ''ri'', js ''Tamm'']"
    by code_simp+
  have b: "\<not> list_all isWhiteSpace (js '' Anna'' @ [0x09, 0x20] @ js ''Maria'' @ [0xA0] @ js ''Kask'')"
    "trim (js '' Anna'' @ [0x09, 0x20] @ js ''Maria'' @ [0xA0] @ js ''Kask'') =
       js ''Anna'' @ [0x09, 0x20] @ js ''Maria'' @ [0xA0] @ js ''Kask''"
    "tokens (js ''Anna'' @ [0x09, 0x20] @ js ''Maria'' @ [0xA0] @ js ''Kask'') =
       [js ''Anna'', js ''Maria'', js ''Kask'']"
    "tl (concat (map ((#) 0x20) [js ''Maria'', js ''Kask''])) = js ''Maria Kask''"
    by code_simp+
  have c: "list_all isWhiteSpace (js ''   '')"
    by code_simp
  show ?thesis
    using normalizeParentName_tokens [of "js ''  J'' @ [0xFC] @ js ''ri Tamm  ''"]
      normalizeParentName_tokens [of "js '' Anna'' @ [0x09, 0x20] @ js ''Maria'' @ [0xA0] @ js ''Kask''"]
      normalizeParentName_tokens [of "js ''   ''"]
      a b c
    by simp
qed

subsection \<open>Array operators\<close>

lemma set_addToSet [simp]: "set (addToSet x xs) = insert x (set xs)"
  by (auto simp: addToSet_def)

lemma distinct_addToSet [simp]: "distinct (addToSet x xs) = distinct xs"
  by (auto simp: addToSet_def)

lemma addToSet_member: "x \<in> set xs \<Longrightarrow> addToSet x xs = xs"
  by (simp add: addToSet_def)

lemma set_pull [simp]: "set (pull x xs) = set xs - {x}"
  by (auto simp: pull_def)

lemma pull_absent: "x \<notin> set xs \<Longrightarrow> pull x xs = xs"
  by (auto simp: pull_def filter_id_conv)

lemma fold_addToSet_set: "set (fold addToSet xs acc) = set xs \<union> set acc"
  by (induction xs arbitrary: acc) auto

lemma fold_addToSet_distinct: "distinct (fold addToSet xs acc) = distinct acc"
  by (induction xs arbitrary: acc) auto

lemma set_uniq [simp]: "set (uniq xs) = set xs"
  by (simp add: uniq_def fold_addToSet_set)

lemma distinct_uniq [simp]: "distinct (uniq xs)"
  by (simp add: uniq_def fold_addToSet_distinct)

lemma fold_addToSet_distinct_id:
  "distinct xs \<Longrightarrow> set xs \<inter> set acc = {} \<Longrightarrow> fold addToSet xs acc = acc @ xs"
  by (induction xs arbitrary: acc) (auto simp: addToSet_def)

lemma uniq_distinct: "distinct xs \<Longrightarrow> uniq xs = xs"
  by (simp add: uniq_def fold_addToSet_distinct_id)

lemma uniq_uniq [simp]: "uniq (uniq xs) = uniq xs"
  by (simp add: uniq_distinct)

lemma uniq_Nil [simp]: "uniq [] = []"
  by (simp add: uniq_def)

lemma uniq_eq_Nil [simp]: "uniq xs = [] \<longleftrightarrow> xs = []"
  by (metis set_uniq set_empty)

subsection \<open>The writes of the roster loops\<close>

lemma same_but_rosters_refl [simp]: "same_but_rosters d d"
  by (simp add: same_but_rosters_def)

lemma same_but_rosters_trans:
  "same_but_rosters d d' \<Longrightarrow> same_but_rosters d' d'' \<Longrightarrow> same_but_rosters d d''"
  by (simp add: same_but_rosters_def)

lemma Group_updateOne_frame [simp]:
  "students (Group_updateOne g f d) = students d"
  "parents (Group_updateOne g f d) = parents d"
  "nextId (Group_updateOne g f d) = nextId d"
  by (simp_all add: Group_updateOne_def split: option.split)

lemma groups_Group_updateOne:
  "groups (Group_updateOne g f d) x = (if x = g then map_option f (groups d g) else groups d x)"
  by (simp add: Group_updateOne_def split: option.split)

lemma ensureParentInGroup_frame [simp]:
  "students (ensureParentInGroup g p d) = students d"
  "parents (ensureParentInGroup g p d) = parents d"
  "nextId (ensureParentInGroup g p d) = nextId d"
  by (simp_all add: ensureParentInGroup_def split: option.split)

lemma removeParentFromGroupIfUnused_frame [simp]:
  "students (removeParentFromGroupIfUnused g p d) = students d"
  "parents (removeParentFromGroupIfUnused g p d) = parents d"
  "nextId (removeParentFromGroupIfUnused g p d) = nextId d"
  by (simp_all add: removeParentFromGroupIfUnused_def Let_def split: option.split)

lemma same_but_rosters_Group_updateOne:
  assumes "\<And>G. group_rest (f G) = group_rest G"
  shows "same_but_rosters d (Group_updateOne g f d)"
  unfolding same_but_rosters_def
  by (simp add: groups_Group_updateOne option.map_comp comp_def assms)

lemma same_but_rosters_pullStudent [simp]: "same_but_rosters d (Group_updateOne g (pullStudent s) d)"
  by (rule same_but_rosters_Group_updateOne) (simp add: pullStudent_def group_rest_def)

lemma same_but_rosters_addStudent [simp]: "same_but_rosters d (Group_updateOne g (addStudent s) d)"
  by (rule same_but_rosters_Group_updateOne) (simp add: addStudent_def group_rest_def)

lemma same_but_rosters_pullParent [simp]: "same_but_rosters d (Group_updateOne g (pullParent s) d)"
  by (rule same_but_rosters_Group_updateOne) (simp add: pullParent_def group_rest_def)

lemma same_but_rosters_addParent [simp]: "same_but_rosters d (Group_updateOne g (addParent s) d)"
  by (rule same_but_rosters_Group_updateOne) (simp add: addParent_def group_rest_def)

lemma same_but_rosters_ensureParentInGroup [simp]:
  "same_but_rosters d (ensureParentInGroup g p d)"
  by (simp add: ensureParentInGroup_def split: option.split)

lemma same_but_rosters_removeParentFromGroupIfUnused [simp]:
  "same_but_rosters d (removeParentFromGroupIfUnused g p d)"
  by (simp add: removeParentFromGroupIfUnused_def Let_def split: option.split)

lemma same_but_rosters_Student_save:
  "students d s = Some st \<Longrightarrow> same_but_rosters d (outcome (Student_save s (st\<lparr>s_group := x\<rparr>) d))"
  by (auto simp: Student_save_def outcome_def same_but_rosters_def student_rest_def)

lemma same_but_rosters_detachRemoved:
  "same_but_rosters d (outcome (detachRemoved g xs d))"
proof (induction xs arbitrary: d)
  case Nil
  show ?case by (simp add: outcome_def)
next
  case (Cons s xs)
  show ?case
  proof (cases "students d s")
    case None
    then show ?thesis using Cons by simp
  next
    case (Some st)
    note sv = same_but_rosters_Student_save [OF Some, of None]
    show ?thesis
    proof (cases "Student_save s (st\<lparr>s_group := None\<rparr>) d")
      case (Inl e)
      then show ?thesis using sv Some by (simp add: outcome_def)
    next
      case (Inr d1)
      have "same_but_rosters d d1" using sv Inr by (simp add: outcome_def)
      then have "same_but_rosters d (removeParentFromGroupIfUnused (Some g) (s_parent st)
                    (Group_updateOne g (pullStudent s) d1))"
        by (blast intro: same_but_rosters_trans same_but_rosters_pullStudent
            same_but_rosters_removeParentFromGroupIfUnused)
      then show ?thesis
        using Cons [of "removeParentFromGroupIfUnused (Some g) (s_parent st)
                    (Group_updateOne g (pullStudent s) d1)"] Some Inr
        by (auto intro: same_but_rosters_trans)
    qed
  qed
qed

lemma same_but_rosters_leavePreviousGroup:
  "students d s = Some st \<Longrightarrow> same_but_rosters d (outcome (leavePreviousGroup g s st d))"
proof -
  assume st: "students d s = Some st"
  let ?d1 = "case s_group st of None \<Rightarrow> d
             | Some pg \<Rightarrow> removeParentFromGroupIfUnused (Some pg) (s_parent st)
                           (Group_updateOne pg (pullStudent s) d)"
  have a: "same_but_rosters d ?d1"
    by (auto split: option.split
        intro: same_but_rosters_trans [OF same_but_rosters_pullStudent
                 same_but_rosters_removeParentFromGroupIfUnused])
  have "students ?d1 s = Some st"
    using st by (simp split: option.split)
  then have "same_but_rosters ?d1 (outcome (Student_save s (st\<lparr>s_group := Some g\<rparr>) ?d1))"
    by (rule same_but_rosters_Student_save)
  with a have "same_but_rosters d (outcome (Student_save s (st\<lparr>s_group := Some g\<rparr>) ?d1))"
    by (rule same_but_rosters_trans)
  then show ?thesis
    by (simp add: leavePreviousGroup_def outcome_def)
qed

lemma same_but_rosters_assignRequested:
  "same_but_rosters d (outcome (assignRequested g xs d))"
proof (induction xs arbitrary: d)
  case Nil
  show ?case by (simp add: outcome_def)
next
  case (Cons s xs)
  show ?case
  proof (cases "students d s")
    case None
    then show ?thesis using Cons by simp
  next
    case (Some st)
    note lv = same_but_rosters_leavePreviousGroup [OF Some, of g]
    show ?thesis
    proof (cases "leavePreviousGroup g s st d")
      case (Inl e)
      then show ?thesis using lv Some by (simp add: outcome_def)
    next
      case (Inr d1)
      let ?d2 = "ensureParentInGroup g (s_parent st) (Group_updateOne g (addStudent s) d1)"
      have "same_but_rosters d d1" using lv Inr by (simp add: outcome_def)
      then have "same_but_rosters d ?d2"
        by (blast intro: same_but_rosters_trans same_but_rosters_addStudent
            same_but_rosters_ensureParentInGroup)
      then show ?thesis
        using Cons [of ?d2] Some Inr by (auto intro: same_but_rosters_trans)
    qed
  qed
qed

lemma same_but_rosters_detachAll:
  "same_but_rosters d (outcome (detachAll g xs d))"
proof (induction xs arbitrary: d)
  case Nil
  show ?case by (simp add: outcome_def)
next
  case (Cons s xs)
  show ?case
  proof (cases "students d s")
    case None
    then show ?thesis using Cons by simp
  next
    case (Some st)
    note sv = same_but_rosters_Student_save [OF Some, of None]
    show ?thesis
    proof (cases "Student_save s (st\<lparr>s_group := None\<rparr>) d")
      case (Inl e)
      then show ?thesis using sv Some by (simp add: outcome_def)
    next
      case (Inr d1)
      let ?d2 = "removeParentFromGroupIfUnused (Some g) (s_parent st) d1"
      have "same_but_rosters d d1" using sv Inr by (simp add: outcome_def)
      then have "same_but_rosters d ?d2"
        by (blast intro: same_but_rosters_trans same_but_rosters_removeParentFromGroupIfUnused)
      then show ?thesis
        using Cons [of ?d2] Some Inr by (auto intro: same_but_rosters_trans)
    qed
  qed
qed

lemma same_but_rosters_replaceRoster:
  "same_but_rosters d (roster_store (replaceRoster g current requested d))"
proof -
  let ?T = "filter (\<lambda>i. i \<notin> set requested) current"
  have a: "same_but_rosters d (outcome (detachRemoved g ?T d))"
    by (rule same_but_rosters_detachRemoved)
  have b: "same_but_rosters d (outcome (assignRequested g requested d1))"
    if "detachRemoved g ?T d = Inr d1" for d1
    using a that same_but_rosters_assignRequested [of d1 g requested]
    by (auto simp: outcome_def intro: same_but_rosters_trans)
  have c: "same_but_rosters d (outcome (detachAll g current d))"
    by (rule same_but_rosters_detachAll)
  show ?thesis
    using a b c
    by (auto simp: replaceRoster_def roster_store_def outcome_def Let_def split: sum.split)
qed

subsection \<open>Strings: the setters are idempotent\<close>

lemma isWhiteSpace_lowerUnit [simp]: "isWhiteSpace (lowerUnit c) = isWhiteSpace c"
proof (cases "0x41 \<le> c \<and> c \<le> 0x5A")
  case False
  then show ?thesis by (auto simp: lowerUnit_def)
next
  case True
  then have u: "65 \<le> unat c" "unat c \<le> 90"
    by (simp_all add: word_le_nat_alt)
  then have "unat (c + 0x20) = unat c + 32"
    by (simp add: unat_word_ariths)
  with u have "\<not> isWhiteSpace (c + 0x20)" "\<not> isWhiteSpace c"
    by (auto simp: isWhiteSpace_def word_le_nat_alt dest!: arg_cong [where f = unat])
  with True show ?thesis by (simp add: lowerUnit_def)
qed

lemma lowerUnit_idem [simp]: "lowerUnit (lowerUnit c) = lowerUnit c"
proof (cases "0x41 \<le> c \<and> c \<le> 0x5A")
  case False
  then show ?thesis by (auto simp: lowerUnit_def)
next
  case True
  then have u: "65 \<le> unat c" "unat c \<le> 90"
    by (simp_all add: word_le_nat_alt)
  then have "unat (c + 0x20) = unat c + 32"
    by (simp add: unat_word_ariths)
  with u have "\<not> (0x41 \<le> c + 0x20 \<and> c + 0x20 \<le> 0x5A)"
    by (simp add: word_le_nat_alt)
  with True show ?thesis by (simp add: lowerUnit_def)
qed

lemma toLowerCase_idem [simp]: "toLowerCase (toLowerCase s) = toLowerCase s"
  by (simp add: toLowerCase_def)

lemma dropWhile_isWhiteSpace_toLowerCase:
  "dropWhile isWhiteSpace (toLowerCase s) = toLowerCase (dropWhile isWhiteSpace s)"
  by (simp add: toLowerCase_def dropWhile_map comp_def)

lemma trim_toLowerCase: "trim (toLowerCase s) = toLowerCase (trim s)"
  by (simp add: trim_def toLowerCase_def dropWhile_map rev_map comp_def)

lemma dropWhile_hd: "xs \<noteq> [] \<Longrightarrow> \<not> P (hd xs) \<Longrightarrow> dropWhile P xs = xs"
  by (cases xs) simp_all

lemma trim_idem [simp]: "trim (trim s) = trim s"
proof (cases "trim s = []")
  case True
  have "trim [] = []" by (simp add: trim_def)
  with True show ?thesis by simp
next
  case False
  note e = trim_ends [OF False]
  have a: "dropWhile isWhiteSpace (trim s) = trim s"
    using False e(1) by (rule dropWhile_hd)
  have "hd (rev (trim s)) = last (trim s)"
    using False by (simp add: hd_rev)
  then have b: "dropWhile isWhiteSpace (rev (trim s)) = rev (trim s)"
    using False e(2) by (intro dropWhile_hd) simp_all
  show ?thesis
    by (subst (1) trim_def) (simp add: a b)
qed

lemma setEmail_idem [simp]: "setEmail (setEmail e) = setEmail e"
  by (simp add: setEmail_def trim_toLowerCase)

lemma setEmail_normalised [simp]: "setEmail (trim (toLowerCase e)) = trim (toLowerCase e)"
  using setEmail_idem [of e] by (simp add: setEmail_def)

lemma castEmail_normalised [simp]: "castEmail q (trim (toLowerCase e)) = trim (toLowerCase e)"
  by (simp add: castEmail_def)

lemma normalizeParentName_firstName [simp]: "np_firstName (normalizeParentName x) \<noteq> []"
  by (simp add: normalizeParentName_def defaultName_def Lapsevanem_def js_def Let_def
      split: option.split)

subsection \<open>The parents of the payload\<close>

lemma Parent_findOne_Some:
  assumes "Parent_findOne q e d = Some (p, P)"
  shows "parents d p = Some P" and "p_email P = castEmail q e" and "p < nextId d"
proof -
  let ?f = "\<lambda>i. case parents d i of None \<Rightarrow> False | Some P \<Rightarrow> p_email P = castEmail q e"
  from assms obtain i where i: "List.find ?f [0..<nextId d] = Some i"
    and pi: "map_option (Pair i) (parents d i) = Some (p, P)"
    by (auto simp: Parent_findOne_def split: option.splits)
  from pi have ip: "i = p" and P: "parents d p = Some P" by auto
  from i have "?f i" and "i \<in> set [0..<nextId d]"
    by (auto simp: find_Some_iff)
  then show "parents d p = Some P" and "p_email P = castEmail q e" and "p < nextId d"
    using ip P by auto
qed

lemma Parent_create_Inr:
  assumes "Parent_create fn ln e d = Inr (p, P, d')"
  shows "p = nextId d" and "d' = d\<lparr>parents := (parents d)(nextId d \<mapsto> P), nextId := Suc (nextId d)\<rparr>"
    and "p_email P = setEmail e" and "p_students P = []" and "setEmail e \<noteq> []"
    and "p_firstName P = Some (trim fn)" and "p_lastName P = Some (trim ln)"
  using assms by (auto simp: Parent_create_def Let_def parent_valid_def split: if_splits)

lemma Parent_create_Inl: "Parent_create fn ln e d = Inl x \<Longrightarrow> x = d \<and> setEmail e = []"
  by (auto simp: Parent_create_def Let_def parent_valid_def split: if_splits)

lemma Parent_save_Inr:
  assumes "Parent_save p mem f d = Inr d'"
  shows "\<exists>P. parents d p = Some P \<and> d' = d\<lparr>parents := (parents d)(p \<mapsto> f P)\<rparr>" and "parent_valid mem"
  using assms by (auto simp: Parent_save_def split: if_splits option.splits)

lemma Parent_save_Inl: "Parent_save p mem f d = Inl x \<Longrightarrow> x = d"
  by (auto simp: Parent_save_def split: if_splits option.splits)

lemma Parent_save_present:
  "parents d p = Some P \<Longrightarrow> parent_valid mem \<Longrightarrow>
   Parent_save p mem f d = Inr (d\<lparr>parents := (parents d)(p \<mapsto> f P)\<rparr>)"
  by (simp add: Parent_save_def)

lemma same_but_parents_refl [simp]: "same_but_parents d d"
  by (simp add: same_but_parents_def)

lemma same_but_parents_trans:
  "same_but_parents d d' \<Longrightarrow> same_but_parents d' d'' \<Longrightarrow> same_but_parents d d''"
  by (simp add: same_but_parents_def)

lemma saveNames_Inl: "saveNames a b p P n d = Inl x \<Longrightarrow> x = d"
  by (auto simp: saveNames_def dest: Parent_save_Inl split: if_splits)

lemma same_but_parents_saveNames:
  "saveNames a b p P n d = Inr d' \<Longrightarrow> same_but_parents d d'"
  by (auto simp: saveNames_def same_but_parents_def dest!: Parent_save_Inr(1) split: if_splits)

lemma resolveParent_Inl: "resolveParent q e n d = Inl x \<Longrightarrow> x = d"
  by (auto simp: resolveParent_def dest: saveNames_Inl Parent_create_Inl
      split: option.splits sum.splits prod.splits)

lemma same_but_parents_resolveParent:
  "resolveParent q e n d = Inr (p, d') \<Longrightarrow> same_but_parents d d'"
  by (auto simp: resolveParent_def same_but_parents_def
      dest!: same_but_parents_saveNames Parent_create_Inr(2)
      split: option.splits sum.splits prod.splits)

text \<open>An entry with an e-mail never throws.\<close>

lemma resolveParent_total:
  assumes "email = trim (toLowerCase e)" and "email \<noteq> []"
  shows "\<exists>p d'. resolveParent q email n d = Inr (p, d')"
proof (cases "Parent_findOne q email d")
  case None
  have "parent_valid \<lparr>p_firstName = Some (trim (np_firstName n)), p_lastName = Some (trim (np_lastName n)),
                p_email = setEmail email, p_phone = None, p_students = []\<rparr>"
    using assms by (simp add: parent_valid_def)
  then show ?thesis
    using None by (simp add: resolveParent_def Parent_create_def Let_def)
next
  case (Some a)
  obtain p P where a: "a = (p, P)" by (cases a)
  note f = Parent_findOne_Some [OF Some [unfolded a]]
  have "parent_valid P" using f(2) assms by (simp add: parent_valid_def)
  then show ?thesis
    using Some a f(1) by (simp add: resolveParent_def saveNames_def Parent_save_present)
qed

lemma resolveParents_Cons:
  "pi_email item = None \<Longrightarrow> resolveParents q (item # items) ids d = Inl (BadRequest400, d)"
  "pi_email item = Some e \<Longrightarrow> trim (toLowerCase e) = [] \<Longrightarrow>
     resolveParents q (item # items) ids d = Inl (BadRequest400, d)"
  "pi_email item = Some e \<Longrightarrow> trim (toLowerCase e) \<noteq> [] \<Longrightarrow>
     resolveParents q (item # items) ids d =
       (case resolveParent q (trim (toLowerCase e)) (normalizeParentName (pi_name item)) d of
          Inl x \<Rightarrow> Inl (ServerError500, x)
        | Inr (p, d1) \<Rightarrow> resolveParents q items (addToSet p ids) d1)"
  by simp_all

declare resolveParents.simps(2) [simp del]

lemma same_but_parents_resolveParents:
  "same_but_parents d (parents_store (resolveParents q items ids d))"
proof (induction items arbitrary: ids d)
  case Nil
  show ?case by (simp add: parents_store_def)
next
  case (Cons item items)
  show ?case
  proof (cases "pi_email item")
    case None
    then show ?thesis by (simp add: parents_store_def resolveParents_Cons)
  next
    case (Some e)
    show ?thesis
    proof (cases "trim (toLowerCase e) = []")
      case True
      with Some show ?thesis by (simp add: parents_store_def resolveParents_Cons)
    next
      case False
      obtain p d1 where r: "resolveParent q (trim (toLowerCase e)) (normalizeParentName (pi_name item)) d = Inr (p, d1)"
        using resolveParent_total [OF refl False] by blast
      have "same_but_parents d d1" using r by (rule same_but_parents_resolveParent)
      then show ?thesis
        using Cons [of d1 "addToSet p ids"] Some False r
        by (auto simp: resolveParents_Cons intro: same_but_parents_trans)
    qed
  qed
qed

lemma Group_save_Inl: "Group_save g L G d = Inl e \<Longrightarrow> e = d"
  by (auto simp: Group_save_def split: if_splits option.splits)

lemma Group_save_Inr:
  assumes "Group_save g L G d = Inr d'"
  shows "\<exists>G'. groups d g = Some G' \<and> d' = d\<lparr>groups := (groups d)(g \<mapsto> savedGroup L G G')\<rparr>"
    and "group_valid G"
  using assms by (auto simp: Group_save_def split: if_splits option.splits)

lemma savedGroup_simps [simp]:
  "g_teachers (savedGroup L G G') = g_teachers G'"
  "g_students (savedGroup L G G') = (if g_students G = g_students L then g_students G' else g_students G)"
  "g_parents (savedGroup L G G') = (if g_parents G = g_parents L then g_parents G' else g_parents G)"
  "g_name (savedGroup L G G') = (if g_name G = g_name L then g_name G' else g_name G)"
  "g_location (savedGroup L G G') = (if g_location G = g_location L then g_location G' else g_location G)"
  "g_description (savedGroup L G G') =
     (if g_description G = g_description L then g_description G' else g_description G)"
  by (simp_all add: savedGroup_def)

lemma Parent_deleteOne_frame [simp]:
  "groups (Parent_deleteOne p d) = groups d"
  "students (Parent_deleteOne p d) = students d"
  "nextId (Parent_deleteOne p d) = nextId d"
  by (simp_all add: Parent_deleteOne_def)

lemma groups_removeParentFromGroupIfUnused:
  "groups (removeParentFromGroupIfUnused go po d) x =
     (case (go, po) of
        (Some g, Some p) \<Rightarrow>
          if x = g \<and> Student_countDocuments (\<lambda>st. s_group st = Some g \<and> s_parent st = Some p) d = 0
          then map_option (pullParent p) (groups d x) else groups d x
      | _ \<Rightarrow> groups d x)"
  by (simp add: removeParentFromGroupIfUnused_def Let_def groups_Group_updateOne split: option.split)

lemma cleanupParents_frame:
  "students (cleanupParents g ps d) = students d \<and> nextId (cleanupParents g ps d) = nextId d \<and>
   (\<forall>x. map_option (\<lambda>G. (group_rest G, g_students G)) (groups (cleanupParents g ps d) x) =
        map_option (\<lambda>G. (group_rest G, g_students G)) (groups d x))"
proof (induction ps arbitrary: d)
  case Nil
  show ?case by simp
next
  case (Cons p ps)
  let ?d1 = "removeParentFromGroupIfUnused (Some g) (Some p) d"
  have a: "map_option (\<lambda>G. (group_rest G, g_students G)) (groups ?d1 x) =
        map_option (\<lambda>G. (group_rest G, g_students G)) (groups d x)" for x
    by (simp add: groups_removeParentFromGroupIfUnused option.map_comp comp_def
        group_rest_def pullParent_def)
  show ?case
    using Cons [of ?d1] Cons [of "Parent_deleteOne p ?d1"] a
    by (simp add: Let_def)
qed

lemma teachers_group_rest:
  "map_option group_rest m = map_option group_rest m' \<Longrightarrow>
   map_option g_teachers m = map_option g_teachers m'"
  by (cases m; cases m') (auto simp: group_rest_def)

lemma teachers_same_but_rosters:
  "same_but_rosters d d' \<Longrightarrow> map_option g_teachers (groups d' x) = map_option g_teachers (groups d x)"
  by (rule teachers_group_rest) (simp add: same_but_rosters_def)

lemma teachers_cleanupParents:
  "map_option g_teachers (groups (cleanupParents g ps d) x) = map_option g_teachers (groups d x)"
proof -
  have "map_option (\<lambda>G. (group_rest G, g_students G)) (groups (cleanupParents g ps d) x) =
        map_option (\<lambda>G. (group_rest G, g_students G)) (groups d x)"
    using cleanupParents_frame [of g ps d] by blast
  then show ?thesis
    by (cases "groups (cleanupParents g ps d) x"; cases "groups d x") (auto simp: group_rest_def)
qed

lemma students_cleanupParents:
  "map_option g_students (groups (cleanupParents g ps d) x) = map_option g_students (groups d x)"
proof -
  have "map_option (\<lambda>G. (group_rest G, g_students G)) (groups (cleanupParents g ps d) x) =
        map_option (\<lambda>G. (group_rest G, g_students G)) (groups d x)"
    using cleanupParents_frame [of g ps d] by blast
  then show ?thesis
    by (cases "groups (cleanupParents g ps d) x"; cases "groups d x") auto
qed

text \<open>The shape of a call of the handler that passes the two guards.\<close>

lemma patchGroupFull_admin:
  assumes "groups d g = Some G0"
  shows "patchGroupFull q Admin g body d =
     (case replaceRoster g (g_students G0) (requestedStudentIds body) d of
        Inl answer \<Rightarrow> answer
      | Inr d1 \<Rightarrow>
          (case resolveParents q (b_parents body) (uniq (studentParentIds g d1)) d1 of
             Inl answer \<Rightarrow> answer
           | Inr (finalParentIds, d2) \<Rightarrow>
               (case Group_save g G0 ((editGroup body G0)\<lparr>g_students := requestedStudentIds body,
                                     g_parents := finalParentIds\<rparr>) d2 of
                  Inl e \<Rightarrow> (ServerError500, e)
                | Inr d3 \<Rightarrow>
                    (OK200, cleanupParents g
                       (filter (\<lambda>i. i \<notin> set finalParentIds) (g_parents G0)) d3))))"
  using assms
  by (simp add: patchGroupFull_def Let_def editGroup_def split: sum.split prod.split)

lemma patchGroupFull_refused:
  "r \<noteq> Admin \<Longrightarrow> patchGroupFull q r g body d = (Forbidden403, d)"
  "r = Admin \<Longrightarrow> groups d g = None \<Longrightarrow> patchGroupFull q r g body d = (NotFound404, d)"
  by (simp_all add: patchGroupFull_def)

lemma replaceRoster_Inl:
  "replaceRoster g current requested d = Inl (a, e) \<Longrightarrow> a = BadRequest400 \<or> a = ServerError500"
  by (auto simp: replaceRoster_def Let_def split: if_splits sum.splits)

lemma resolveParents_step:
  assumes "hasEmail item"
  obtains p d1 where
    "resolveParent q (itemEmail item) (normalizeParentName (pi_name item)) d = Inr (p, d1)"
    "\<And>items ids. resolveParents q (item # items) ids d = resolveParents q items (addToSet p ids) d1"
proof -
  from assms obtain e where e: "pi_email item = Some e" "trim (toLowerCase e) \<noteq> []"
    by (auto simp: hasEmail_def split: option.splits)
  then have ie: "itemEmail item = trim (toLowerCase e)" by (simp add: itemEmail_def)
  obtain p d1 where r: "resolveParent q (trim (toLowerCase e)) (normalizeParentName (pi_name item)) d = Inr (p, d1)"
    using resolveParent_total [OF refl e(2)] by blast
  show thesis
    using that [of p d1] r e by (simp add: ie resolveParents_Cons)
qed

lemma resolveParents_bad:
  "\<not> hasEmail item \<Longrightarrow> resolveParents q (item # items) ids d = Inl (BadRequest400, d)"
  by (auto simp: hasEmail_def resolveParents_Cons split: option.splits)

lemma resolveParents_Inl:
  "resolveParents q items ids d = Inl (a, e) \<Longrightarrow> a = BadRequest400"
proof (induction items arbitrary: ids d)
  case Nil
  then show ?case by simp
next
  case (Cons item items)
  show ?case
  proof (cases "hasEmail item")
    case False
    then show ?thesis using Cons.prems by (simp add: resolveParents_bad)
  next
    case True
    then obtain p d1 where
      "\<And>items ids. resolveParents q (item # items) ids d = resolveParents q items (addToSet p ids) d1"
      by (rule resolveParents_step [where q = q and d = d]) blast
    then show ?thesis using Cons by simp
  qed
qed

lemma set_map_filter_id: "set (List.map_filter (\<lambda>x. x) xs) = {i. Some i \<in> set xs}"
  by (induction xs) (auto simp: map_filter_simps split: option.splits)

text \<open>
  A request for the students the group lists already: the loops leave the stored
  list as it is.
\<close>

lemma stored_students_leavePreviousGroup:
  assumes "leavePreviousGroup g s st d = Inr d1"
  shows "map_option g_students (groups d1 g) = map_option g_students (groups d g)"
proof (cases "s_group st = Some g")
  case True
  then show ?thesis using assms by (simp add: leavePreviousGroup_def)
next
  case False
  let ?d0 = "case s_group st of None \<Rightarrow> d
             | Some pg \<Rightarrow> removeParentFromGroupIfUnused (Some pg) (s_parent st)
                           (Group_updateOne pg (pullStudent s) d)"
  have "Student_save s (st\<lparr>s_group := Some g\<rparr>) ?d0 = Inr d1"
    using assms False by (simp add: leavePreviousGroup_def)
  then have "groups d1 = groups ?d0"
    by (auto simp: Student_save_def split: if_splits)
  moreover have "map_option g_students (groups ?d0 g) = map_option g_students (groups d g)"
    using False
    by (auto simp: groups_removeParentFromGroupIfUnused groups_Group_updateOne pullParent_def
        option.map_comp comp_def split: option.split)
  ultimately show ?thesis by simp
qed

lemma stored_students_assignRequested:
  assumes "assignRequested g xs d = Inr d'" and "groups d g = Some G"
    and "set xs \<subseteq> set (g_students G)"
  shows "map_option g_students (groups d' g) = Some (g_students G)"
  using assms
proof (induction xs arbitrary: d G)
  case Nil
  then show ?case by simp
next
  case (Cons x xs)
  show ?case
  proof (cases "students d x")
    case None
    then show ?thesis using Cons by simp
  next
    case (Some st)
    from Cons.prems(1) Some obtain d1 where lv: "leavePreviousGroup g x st d = Inr d1"
      by (auto split: sum.splits)
    define d2 where "d2 = ensureParentInGroup g (s_parent st) (Group_updateOne g (addStudent x) d1)"
    have r: "assignRequested g xs d2 = Inr d'"
      using Cons.prems(1) Some lv by (simp add: d2_def)
    from stored_students_leavePreviousGroup [OF lv] Cons.prems(2)
    obtain G1 where G1: "groups d1 g = Some G1" "g_students G1 = g_students G"
      by (cases "groups d1 g") auto
    have "x \<in> set (g_students G1)" using Cons.prems(3) G1(2) by simp
    then have "addToSet x (g_students G1) = g_students G1" by (simp add: addToSet_member)
    then obtain G2 where G2: "groups d2 g = Some G2" "g_students G2 = g_students G"
      using G1
      by (cases "s_parent st")
        (auto simp: d2_def ensureParentInGroup_def groups_Group_updateOne addStudent_def addParent_def)
    from Cons.IH [OF r G2(1)] Cons.prems(3) G2(2) show ?thesis by simp
  qed
qed

lemma stored_students_replaceRoster:
  assumes "replaceRoster g (g_students G) (g_students G) d = Inr d1" and "groups d g = Some G"
  shows "map_option g_students (groups d1 g) = Some (g_students G)"
proof (cases "g_students G = []")
  case True
  then show ?thesis using assms by (simp add: replaceRoster_def)
next
  case False
  have "filter (\<lambda>i. i \<notin> set (g_students G)) (g_students G) = []"
    by (simp add: filter_empty_conv)
  then have "assignRequested g (g_students G) d = Inr d1"
    using assms(1) False by (auto simp: replaceRoster_def Let_def split: if_splits sum.splits)
  from stored_students_assignRequested [OF this assms(2)] show ?thesis by simp
qed

section \<open>The bulk roster replace\<close>

text \<open>
  Claim C9. The bulk roster replace leaves the teachers of every group as they
  were, whatever the payload and whatever the answer.
\<close>

theorem patchGroupFull_teachers:
  "map_option g_teachers (groups (snd (patchGroupFull q r g body d)) x) =
   map_option g_teachers (groups d x)"
proof (cases "r = Admin")
  case False
  then show ?thesis by (simp add: patchGroupFull_refused)
next
  case True
  show ?thesis
  proof (cases "groups d g")
    case None
    with True show ?thesis by (simp add: patchGroupFull_refused)
  next
    case (Some G0)
    let ?rr = "replaceRoster g (g_students G0) (requestedStudentIds body) d"
    have rr: "map_option g_teachers (groups (roster_store ?rr) x) = map_option g_teachers (groups d x)"
      by (rule teachers_same_but_rosters) (rule same_but_rosters_replaceRoster)
    show ?thesis
    proof (cases ?rr)
      case (Inl a)
      then show ?thesis
        using rr True Some by (cases a) (simp add: patchGroupFull_admin roster_store_def)
    next
      case (Inr d1)
      let ?rp = "resolveParents q (b_parents body) (uniq (studentParentIds g d1)) d1"
      have d1: "map_option g_teachers (groups d1 x) = map_option g_teachers (groups d x)"
        using rr Inr by (simp add: roster_store_def)
      have rp: "groups (parents_store ?rp) = groups d1"
        using same_but_parents_resolveParents [of d1 q "b_parents body" "uniq (studentParentIds g d1)"]
        by (simp add: same_but_parents_def)
      show ?thesis
      proof (cases ?rp)
        case (Inl a)
        then show ?thesis
          using rp d1 True Some Inr by (cases a) (simp add: patchGroupFull_admin parents_store_def)
      next
        case (Inr b)
        obtain ids d2 where b: "b = (ids, d2)" by (cases b)
        have d2: "groups d2 = groups d1"
          using rp Inr b by (simp add: parents_store_def)
        let ?G = "(editGroup body G0)\<lparr>g_students := requestedStudentIds body, g_parents := ids\<rparr>"
        show ?thesis
        proof (cases "Group_save g G0 ?G d2")
          case (Inl e)
          then have "e = d2" by (rule Group_save_Inl)
          then show ?thesis
            using Inl d1 d2 True Some \<open>?rr = Inr d1\<close> \<open>?rp = Inr b\<close> b
            by (simp add: patchGroupFull_admin)
        next
          case (Inr d3)
          from Group_save_Inr(1) [OF Inr]
          have "map_option g_teachers (groups d3 x) = map_option g_teachers (groups d2 x)"
            by auto
          then show ?thesis
            using Inr d1 d2 True Some \<open>?rr = Inr d1\<close> \<open>?rp = Inr b\<close> b
            by (simp add: patchGroupFull_admin teachers_cleanupParents)
        qed
      qed
    qed
  qed
qed

text \<open>
  Claim C10. After a successful bulk roster replace the students of the group are
  the requested ids, without the falsy entries and each id once, in the order of
  their first occurrence in the request.
\<close>

theorem patchGroupFull_students:
  assumes "patchGroupFull q r g body d = (OK200, d')"
  shows "\<exists>G'. groups d' g = Some G' \<and> g_students G' = requestedStudentIds body \<and>
           distinct (g_students G') \<and>
           set (g_students G') = {i. Some i \<in> set (b_studentIds body)}"
proof -
  have r: "r = Admin"
    using assms by (cases "r = Admin") (simp_all add: patchGroupFull_refused)
  then obtain G0 where G0: "groups d g = Some G0"
    using assms by (cases "groups d g") (simp_all add: patchGroupFull_refused)
  let ?R = "requestedStudentIds body"
  from assms r G0 obtain d1 ids d2 d3 where
    rr: "replaceRoster g (g_students G0) ?R d = Inr d1"
    and rp: "resolveParents q (b_parents body) (uniq (studentParentIds g d1)) d1 = Inr (ids, d2)"
    and sv: "Group_save g G0 ((editGroup body G0)\<lparr>g_students := ?R, g_parents := ids\<rparr>) d2 = Inr d3"
    and d': "d' = cleanupParents g (filter (\<lambda>i. i \<notin> set ids) (g_parents G0)) d3"
    by (auto simp: patchGroupFull_admin split: sum.splits prod.splits
        dest: replaceRoster_Inl resolveParents_Inl)
  have "groups d2 = groups d1"
    using same_but_parents_resolveParents [of d1 q "b_parents body" "uniq (studentParentIds g d1)"] rp
    by (simp add: same_but_parents_def parents_store_def)
  then have kept: "?R = g_students G0 \<Longrightarrow> map_option g_students (groups d2 g) = Some ?R"
    using stored_students_replaceRoster [of g G0 d d1] rr G0 by simp
  from Group_save_Inr(1) [OF sv] kept
  have "map_option g_students (groups d3 g) = Some ?R"
    by (auto simp: editGroup_def)
  then have "map_option g_students (groups d' g) = Some ?R"
    by (simp add: d' students_cleanupParents)
  moreover have "set ?R = {i. Some i \<in> set (b_studentIds body)}"
    by (simp add: requestedStudentIds_def set_map_filter_id)
  ultimately show ?thesis
    by (auto simp: requestedStudentIds_def)
qed

text \<open>
  Claim C4. A bulk roster replace that requests an id with no Student record
  changes nothing in the store, and answers 400 to an administrator who names an
  existing group (403 and 404 come first, as the handler orders its guards).
\<close>

theorem patchGroupFull_unknown_student:
  assumes "i \<in> set (requestedStudentIds body)" and "students d i = None"
  shows "snd (patchGroupFull q r g body d) = d \<and>
         (r = Admin \<and> groups d g \<noteq> None \<longrightarrow> fst (patchGroupFull q r g body d) = BadRequest400)"
proof (cases "r = Admin \<and> groups d g \<noteq> None")
  case False
  then show ?thesis
    by (cases "r = Admin") (auto simp: patchGroupFull_refused)
next
  case True
  then obtain G0 where G0: "groups d g = Some G0" by auto
  let ?R = "requestedStudentIds body"
  have "length (filter (\<lambda>i. students d i \<noteq> None) ?R) < length ?R"
    using assms by (intro length_filter_less [of i]) simp_all
  then have "replaceRoster g (g_students G0) ?R d = Inl (BadRequest400, d)"
    using assms(1) by (auto simp: replaceRoster_def Let_def)
  then show ?thesis
    using True G0 by (simp add: patchGroupFull_admin)
qed

lemma collapse_OK:
  "fst x = a \<Longrightarrow> x = (a, snd x)"
  by (cases x) simp

theorem patchGroupFull_students_witness:
  "\<exists>G'. groups (snd (patchGroupFull True Admin 1 (roster [Some 3, None, Some 3, Some 2] []) db_family)) 1
          = Some G' \<and> g_students G' = [3, 2]"
proof -
  let ?b = "roster [Some 3, None, Some 3, Some 2] []"
  have "fst (patchGroupFull True Admin 1 ?b db_family) = OK200"
    by code_simp
  then have "patchGroupFull True Admin 1 ?b db_family =
             (OK200, snd (patchGroupFull True Admin 1 ?b db_family))"
    by (rule collapse_OK)
  from patchGroupFull_students [OF this]
  have "\<exists>G'. groups (snd (patchGroupFull True Admin 1 ?b db_family)) 1 = Some G' \<and>
             g_students G' = requestedStudentIds ?b"
    by blast
  moreover have "requestedStudentIds ?b = [3, 2]"
    by code_simp
  ultimately show ?thesis by simp
qed

theorem patchGroupFull_unknown_student_witness:
  "snd (patchGroupFull True Admin 1 (roster [Some 3, Some 9] []) db_family) = db_family \<and>
   fst (patchGroupFull True Admin 1 (roster [Some 3, Some 9] []) db_family) = BadRequest400"
proof -
  have a: "9 \<in> set (requestedStudentIds (roster [Some 3, Some 9] []))"
    by code_simp
  have b: "students db_family 9 = None"
    by (simp add: db_family_def)
  have c: "groups db_family 1 \<noteq> None"
    by (simp add: db_family_def)
  show ?thesis
    using patchGroupFull_unknown_student [OF a b, of True Admin 1] c by simp
qed

lemma resolveParents_append:
  "resolveParents q (xs @ ys) ids d =
     (case resolveParents q xs ids d of
        Inl a \<Rightarrow> Inl a
      | Inr (ids', d') \<Rightarrow> resolveParents q ys ids' d')"
proof (induction xs arbitrary: ids d)
  case Nil
  show ?case by simp
next
  case (Cons item xs)
  show ?case
  proof (cases "hasEmail item")
    case False
    then show ?thesis by (simp add: resolveParents_bad)
  next
    case True
    then obtain p d1 where
      "\<And>zs ids. resolveParents q (item # zs) ids d = resolveParents q zs (addToSet p ids) d1"
      by (rule resolveParents_step [where q = q and d = d]) blast
    then show ?thesis using Cons by simp
  qed
qed

lemma resolveParents_total:
  "list_all hasEmail items \<Longrightarrow> \<exists>ids' d'. resolveParents q items ids d = Inr (ids', d')"
proof (induction items arbitrary: ids d)
  case Nil
  show ?case by simp
next
  case (Cons item items)
  then have "hasEmail item" by simp
  then obtain p d1 where
    "\<And>items ids. resolveParents q (item # items) ids d = resolveParents q items (addToSet p ids) d1"
    by (rule resolveParents_step [where q = q and d = d]) blast
  then show ?case using Cons by simp
qed

text \<open>
  Claim C6. The entries of \<^verbatim>\<open>parentPayload\<close> before the first entry without
  an e-mail are resolved; at that entry the handler answers 400 and returns: the
  entries after it are not read, and the store keeps the writes of the roster
  loops (\<open>d1\<close>) and of the entries before it (\<open>d2\<close>).
\<close>

theorem patchGroupFull_missing_email:
  assumes "groups d g = Some G0"
    and "replaceRoster g (g_students G0) (requestedStudentIds body) d = Inr d1"
    and "b_parents body = before @ item # rest"
    and "list_all hasEmail before" and "\<not> hasEmail item"
  shows "\<exists>ids d2. resolveParents q before (uniq (studentParentIds g d1)) d1 = Inr (ids, d2) \<and>
           patchGroupFull q Admin g body d = (BadRequest400, d2) \<and>
           students d2 = students d1 \<and> groups d2 = groups d1"
proof -
  let ?ids = "uniq (studentParentIds g d1)"
  obtain ids d2 where b: "resolveParents q before ?ids d1 = Inr (ids, d2)"
    using resolveParents_total [OF assms(4)] by blast
  have "same_but_parents d1 (parents_store (resolveParents q before ?ids d1))"
    by (rule same_but_parents_resolveParents)
  then have fr: "students d2 = students d1" "groups d2 = groups d1"
    using b by (simp_all add: parents_store_def same_but_parents_def)
  have "resolveParents q (b_parents body) ?ids d1 = Inl (BadRequest400, d2)"
    using b assms(5) by (simp add: assms(3) resolveParents_append resolveParents_bad)
  then have "patchGroupFull q Admin g body d = (BadRequest400, d2)"
    using assms(1,2) by (simp add: patchGroupFull_admin)
  with b fr show ?thesis by blast
qed

theorem patchGroupFull_missing_email_witness:
  "fst (patchGroupFull True Admin 1 (roster [Some 3] [anna, nameless, jaan]) db_family) = BadRequest400 \<and>
   map_option s_group (students (snd (patchGroupFull True Admin 1 (roster [Some 3] [anna, nameless, jaan]) db_family)) 2) = Some None \<and>
   map_option p_email (parents (snd (patchGroupFull True Admin 1 (roster [Some 3] [anna, nameless, jaan]) db_family)) 5) = Some (js ''anna@x.com'') \<and>
   parents (snd (patchGroupFull True Admin 1 (roster [Some 3] [anna, nameless, jaan]) db_family)) 6 = None"
proof -
  let ?b = "roster [Some 3] [anna, nameless, jaan]"
  let ?G = "the (groups db_family 1)"
  let ?rr = "replaceRoster 1 (g_students ?G) (requestedStudentIds ?b) db_family"
  have g: "groups db_family 1 = Some ?G"
    by (simp add: db_family_def)
  have "\<not> isl ?rr" by code_simp
  then have rr: "?rr = Inr (projr ?rr)" by simp
  have ps: "b_parents ?b = [anna] @ nameless # [jaan]"
    by (simp add: roster_def)
  have h: "list_all hasEmail [anna]" "\<not> hasEmail nameless"
    by code_simp+
  from patchGroupFull_missing_email [OF g rr ps h, of True]
  obtain d2 where "patchGroupFull True Admin 1 ?b db_family = (BadRequest400, d2)"
    by blast
  then have "fst (patchGroupFull True Admin 1 ?b db_family) = BadRequest400"
    by simp
  moreover have
    "map_option s_group (students (snd (patchGroupFull True Admin 1 ?b db_family)) 2) = Some None"
    "map_option p_email (parents (snd (patchGroupFull True Admin 1 ?b db_family)) 5) = Some (js ''anna@x.com'')"
    "parents (snd (patchGroupFull True Admin 1 ?b db_family)) 6 = None"
    by code_simp+
  ultimately show ?thesis by simp
qed

section \<open>The same replace twice\<close>

text \<open>
  Claim C1, at its failing input. Group 1 lists parent 4 and the students 2 and 3
  of that parent; the request has no student and names parent 4 in its payload.
  The loop that detaches the students pulls parent 4 from the stored group; the
  handler then assigns to \<^verbatim>\<open>group.parents\<close> the list it loaded, so that the save
  does not write the path, and the group is left with no parent. The same request
  again loads the empty list, assigns the parent and writes it: the store after
  two calls is not the store after one.
\<close>

theorem repeated_replace_differs:
  "fst family_once = OK200 \<and>
   map_option g_parents (groups (snd family_once) 1) = Some [] \<and>
   fst family_twice = OK200 \<and>
   map_option g_parents (groups (snd family_twice) 1) = Some [4] \<and>
   snd family_twice \<noteq> snd family_once"
proof -
  have a: "fst family_once = OK200"
    "map_option g_parents (groups (snd family_once) 1) = Some []"
    "fst family_twice = OK200"
    "map_option g_parents (groups (snd family_twice) 1) = Some [4]"
    by code_simp+
  have "snd family_twice \<noteq> snd family_once"
    using a(2,4) by auto
  then show ?thesis using a by simp
qed

section \<open>The scenario of the two replaces\<close>

text \<open>
  Counterexample to claim C5. After the two replaces no student is in a group and
  no group lists parent 4, who has no student but the students 2 and 3; the
  record of parent 4 is still in the store.
\<close>

theorem replace_family_parent_kept:
  "fst (family_after_two True) = OK200 \<and>
   Student_find (\<lambda>st. s_group st \<noteq> None) (snd (family_after_two True)) = [] \<and>
   Group_countDocuments (\<lambda>G. 4 \<in> set (g_parents G)) (snd (family_after_two True)) = 0 \<and>
   map_option p_students (parents (snd (family_after_two True)) 4) = Some [2, 3] \<and>
   fst (family_after_two False) = OK200 \<and>
   Student_find (\<lambda>st. s_group st \<noteq> None) (snd (family_after_two False)) = [] \<and>
   Group_countDocuments (\<lambda>G. 4 \<in> set (g_parents G)) (snd (family_after_two False)) = 0 \<and>
   map_option p_students (parents (snd (family_after_two False)) 4) = Some [2, 3]"
  by code_simp

section \<open>Deleting a group\<close>

text \<open>
  Claim C7, at its failing input. The payload of a bulk replace creates parent 2
  for group 1, with no student; the group is deleted; parent 2 is left with no
  student and no group that lists it.
\<close>

theorem deleteGroup_leaves_orphan:
  "fst (orphan_after_delete True) = OK200 \<and>
   map_option p_students (parents (snd (orphan_after_delete True)) 2) = Some [] \<and>
   Group_countDocuments (\<lambda>G. 2 \<in> set (g_parents G)) (snd (orphan_after_delete True)) = 0 \<and>
   fst (orphan_after_delete False) = OK200 \<and>
   map_option p_students (parents (snd (orphan_after_delete False)) 2) = Some [] \<and>
   Group_countDocuments (\<lambda>G. 2 \<in> set (g_parents G)) (snd (orphan_after_delete False)) = 0"
  by code_simp

section \<open>An e-mail with white space around it\<close>

text \<open>
  Claim C3, at its failing input. Student 2 is the only student of parent 4, whose
  e-mail is \<^verbatim>\<open>a@x.com\<close>. The update of student 2 with that e-mail followed by a
  space compares the stored e-mail with the string that is not trimmed, takes the
  parent to have changed, finds parent 4 again, pulls the student from its students
  and deletes it as emptied: student 2 keeps parent 4, a record that is no more.
  The creation of a student with the same e-mail then finds no parent and creates
  parent 6: the two requests, whose e-mails are equal once lowercased and trimmed,
  have resolved to two Parent records.
\<close>

theorem padded_email_parent:
  "fst single_update = OK200 \<and>
   parents (snd single_update) 4 = None \<and>
   map_option s_parent (students (snd single_update) 2) = Some (Some 4) \<and>
   fst single_then_create = Created201 \<and>
   map_option s_parent (students (snd single_then_create) 7) = Some (Some 6) \<and>
   map_option p_email (parents (snd single_then_create) 6) = Some (js ''a@x.com'') \<and>
   map_option s_parent (students (snd single_then_create) 2) = Some (Some 4) \<and>
   parents (snd single_then_create) 4 = None"
  by code_simp

section \<open>The invariants along a sequence of requests\<close>

lemma inv_single: "inv_group db_single \<and> inv_parent db_single"
  by (auto simp: inv_group_def inv_parent_def db_single_def pupil_def mari_def club_def
      split: if_splits)

text \<open>
  Counterexample to claim C2. An update that moves student 2 to group 5 with a
  negative age answers 500 after the writes to the two groups: the student still
  has group 1 and is no longer among its students. With setters on the filter, an
  update with the e-mail of the student's parent followed by a space answers 200
  and takes the student out of the students of its parent.
\<close>

theorem failed_update_breaks_roster:
  "inv_group db_single \<and> inv_parent db_single \<and>
   fst (run True [UpdateStudent 2 bad_age_move] db_single) = [ServerError500] \<and>
   \<not> inv_group (snd (run True [UpdateStudent 2 bad_age_move] db_single)) \<and>
   fst (run False [UpdateStudent 2 bad_age_move] db_single) = [ServerError500] \<and>
   \<not> inv_group (snd (run False [UpdateStudent 2 bad_age_move] db_single)) \<and>
   inv_group db_family \<and> inv_parent db_family \<and>
   fst (run True [UpdateStudent 2 padded_email] db_family) = [OK200] \<and>
   \<not> inv_parent (snd (run True [UpdateStudent 2 padded_email] db_family))"
proof -
  have a: "map_option s_group (students (snd (run q [UpdateStudent 2 bad_age_move] db_single)) 2) = Some (Some 1)"
    "map_option g_students (groups (snd (run q [UpdateStudent 2 bad_age_move] db_single)) 1) = Some []" for q
    by (cases q; code_simp)+
  have "\<not> inv_group (snd (run q [UpdateStudent 2 bad_age_move] db_single))" for q
    using a [of q] unfolding inv_group_def by fastforce
  moreover have b: "map_option s_parent (students (snd (run True [UpdateStudent 2 padded_email] db_family)) 2) = Some (Some 4)"
    "map_option p_students (parents (snd (run True [UpdateStudent 2 padded_email] db_family)) 4) = Some [3]"
    by code_simp+
  have "\<not> inv_parent (snd (run True [UpdateStudent 2 padded_email] db_family))"
    using b unfolding inv_parent_def by fastforce
  moreover have "inv_group db_family \<and> inv_parent db_family"
    by (auto simp: inv_group_def inv_parent_def db_family_def pupil_def mari_def club_def
      split: if_splits)
  moreover have "fst (run True [UpdateStudent 2 bad_age_move] db_single) = [ServerError500]"
    "fst (run False [UpdateStudent 2 bad_age_move] db_single) = [ServerError500]"
    "fst (run True [UpdateStudent 2 padded_email] db_family) = [OK200]"
    by code_simp+
  ultimately show ?thesis using inv_single by simp
qed

section \<open>The roster loops, student by student\<close>

lemma student_valid_rest:
  "student_rest st' = student_rest st \<Longrightarrow> student_valid st' = student_valid st"
  by (simp add: student_rest_def student_valid_def)

lemma same_but_rosters_students:
  assumes "same_but_rosters d d'"
  shows "students d' s = None \<longleftrightarrow> students d s = None"
    and "students d' s = Some st' \<Longrightarrow> \<exists>st. students d s = Some st \<and> student_rest st' = student_rest st"
proof -
  have e: "map_option student_rest (students d' s) = map_option student_rest (students d s)"
    using assms by (simp add: same_but_rosters_def)
  show "students d' s = None \<longleftrightarrow> students d s = None"
    using e by (cases "students d' s"; cases "students d s") simp_all
  show "students d' s = Some st' \<Longrightarrow> \<exists>st. students d s = Some st \<and> student_rest st' = student_rest st"
    using e by (cases "students d s") auto
qed

lemma same_but_rosters_groups:
  assumes "same_but_rosters d d'"
  shows "groups d' x = None \<longleftrightarrow> groups d x = None"
  using assms [unfolded same_but_rosters_def]
  by (cases "groups d' x"; cases "groups d x") (auto dest!: spec [of _ x])

lemma students_valid_same_but_rosters:
  assumes "same_but_rosters d d'" and "students_valid d"
  shows "students_valid d'"
  unfolding students_valid_def
proof (intro allI impI)
  fix s st'
  assume "students d' s = Some st'"
  from same_but_rosters_students(2) [OF assms(1) this]
  obtain st where "students d s = Some st" and "student_rest st' = student_rest st"
    by blast
  then show "student_valid st'"
    using assms(2) student_valid_rest [of st' st] by (auto simp: students_valid_def)
qed

lemma ids_below_same_but_rosters:
  assumes "same_but_rosters d d'" and "ids_below d"
  shows "ids_below d'"
proof -
  have "parents d' = parents d" "nextId d' = nextId d"
    using assms(1) by (simp_all add: same_but_rosters_def)
  then show ?thesis
    using assms(2) same_but_rosters_students(1) [OF assms(1)] same_but_rosters_groups [OF assms(1)]
    by (simp add: ids_below_def)
qed

lemma Student_save_valid:
  "student_valid st \<Longrightarrow> Student_save s st d = Inr (d\<lparr>students := (students d)(s \<mapsto> st)\<rparr>)"
  by (simp add: Student_save_def)

lemma student_valid_group [simp]: "student_valid (st\<lparr>s_group := x\<rparr>) = student_valid st"
  by (simp add: student_valid_def)

lemma students_validD: "students_valid d \<Longrightarrow> students d s = Some st \<Longrightarrow> student_valid st"
  by (auto simp: students_valid_def)

text \<open>Under valid students the loops return.\<close>

lemma detachRemoved_total:
  "students_valid d \<Longrightarrow> \<exists>d'. detachRemoved g xs d = Inr d'"
proof (induction xs arbitrary: d)
  case Nil
  show ?case by simp
next
  case (Cons s xs)
  show ?case
  proof (cases "students d s")
    case None
    then show ?thesis using Cons by simp
  next
    case (Some st)
    let ?d1 = "d\<lparr>students := (students d)(s \<mapsto> st\<lparr>s_group := None\<rparr>)\<rparr>"
    let ?d2 = "removeParentFromGroupIfUnused (Some g) (s_parent st)
                    (Group_updateOne g (pullStudent s) ?d1)"
    have sv: "Student_save s (st\<lparr>s_group := None\<rparr>) d = Inr ?d1"
      using Cons.prems Some by (simp add: Student_save_valid students_validD)
    have "same_but_rosters d (outcome (detachRemoved g [s] d))"
      by (rule same_but_rosters_detachRemoved)
    then have "same_but_rosters d ?d2"
      using Some sv by (simp add: outcome_def)
    then have "students_valid ?d2"
      using Cons.prems by (rule students_valid_same_but_rosters)
    then show ?thesis
      using Cons.IH [of ?d2] Some sv by simp
  qed
qed

lemma detachAll_total:
  "students_valid d \<Longrightarrow> \<exists>d'. detachAll g xs d = Inr d'"
proof (induction xs arbitrary: d)
  case Nil
  show ?case by simp
next
  case (Cons s xs)
  show ?case
  proof (cases "students d s")
    case None
    then show ?thesis using Cons by simp
  next
    case (Some st)
    let ?d1 = "d\<lparr>students := (students d)(s \<mapsto> st\<lparr>s_group := None\<rparr>)\<rparr>"
    let ?d2 = "removeParentFromGroupIfUnused (Some g) (s_parent st) ?d1"
    have sv: "Student_save s (st\<lparr>s_group := None\<rparr>) d = Inr ?d1"
      using Cons.prems Some by (simp add: Student_save_valid students_validD)
    have "same_but_rosters d (outcome (detachAll g [s] d))"
      by (rule same_but_rosters_detachAll)
    then have "same_but_rosters d ?d2"
      using Some sv by (simp add: outcome_def)
    then have "students_valid ?d2"
      using Cons.prems by (rule students_valid_same_but_rosters)
    then show ?thesis
      using Cons.IH [of ?d2] Some sv by simp
  qed
qed

lemma leavePreviousGroup_total:
  assumes "students_valid d" and "students d s = Some st"
  shows "\<exists>d'. leavePreviousGroup g s st d = Inr d'"
  using assms by (auto simp: leavePreviousGroup_def Student_save_valid students_validD)

lemma assignRequested_total:
  "students_valid d \<Longrightarrow> \<exists>d'. assignRequested g xs d = Inr d'"
proof (induction xs arbitrary: d)
  case Nil
  show ?case by simp
next
  case (Cons s xs)
  show ?case
  proof (cases "students d s")
    case None
    then show ?thesis using Cons by simp
  next
    case (Some st)
    obtain d1 where lv: "leavePreviousGroup g s st d = Inr d1"
      using leavePreviousGroup_total [OF Cons.prems Some] by blast
    let ?d2 = "ensureParentInGroup g (s_parent st) (Group_updateOne g (addStudent s) d1)"
    have "same_but_rosters d (outcome (assignRequested g [s] d))"
      by (rule same_but_rosters_assignRequested)
    then have "same_but_rosters d ?d2"
      using Some lv by (simp add: outcome_def)
    then have "students_valid ?d2"
      using Cons.prems by (rule students_valid_same_but_rosters)
    then show ?thesis
      using Cons.IH [of ?d2] Some lv by simp
  qed
qed

lemma studs_students_update [simp]: "studs (d\<lparr>students := m\<rparr>) = studs d"
  by (simp add: studs_def fun_eq_iff)

lemma pars_students_update [simp]: "pars (d\<lparr>students := m\<rparr>) = pars d"
  by (simp add: pars_def fun_eq_iff)

lemma studs_removeParentFromGroupIfUnused [simp]:
  "studs (removeParentFromGroupIfUnused go po d) = studs d"
  by (auto simp: fun_eq_iff studs_def groups_removeParentFromGroupIfUnused pullParent_def
      split: option.split)

lemma studs_ensureParentInGroup [simp]: "studs (ensureParentInGroup g po d) = studs d"
  by (auto simp: fun_eq_iff ensureParentInGroup_def groups_Group_updateOne addParent_def studs_def
      split: option.split)

lemma studs_pullStudent:
  "studs (Group_updateOne g (pullStudent s) d) x = (if x = g then studs d g - {s} else studs d x)"
  by (auto simp: groups_Group_updateOne pullStudent_def studs_def split: option.split)

lemma studs_addStudent:
  "groups d g \<noteq> None \<Longrightarrow>
   studs (Group_updateOne g (addStudent s) d) x = (if x = g then insert s (studs d g) else studs d x)"
  by (auto simp: groups_Group_updateOne addStudent_def studs_def split: option.split)

lemma pars_pullStudent [simp]: "pars (Group_updateOne g (pullStudent s) d) = pars d"
  by (auto simp: fun_eq_iff groups_Group_updateOne pullStudent_def pars_def split: option.split)

lemma pars_addStudent [simp]: "pars (Group_updateOne g (addStudent s) d) = pars d"
  by (auto simp: fun_eq_iff groups_Group_updateOne addStudent_def pars_def split: option.split)

lemma pars_ensureParentInGroup:
  "groups d g \<noteq> None \<Longrightarrow>
   pars (ensureParentInGroup g po d) x =
     (case po of None \<Rightarrow> pars d x | Some p \<Rightarrow> if x = g then insert p (pars d g) else pars d x)"
  by (auto simp: ensureParentInGroup_def groups_Group_updateOne addParent_def pars_def
      split: option.split)

lemma pars_removeParentFromGroupIfUnused_subset:
  "pars (removeParentFromGroupIfUnused go po d) x \<subseteq> pars d x"
  by (auto simp: pars_def groups_removeParentFromGroupIfUnused pullParent_def split: option.splits if_splits)

lemma pars_removeParentFromGroupIfUnused_other:
  "go \<noteq> Some x \<Longrightarrow> pars (removeParentFromGroupIfUnused go po d) x = pars d x"
  by (auto simp: pars_def groups_removeParentFromGroupIfUnused split: option.splits)

lemma groups_exist_removeParentFromGroupIfUnused [simp]:
  "groups (removeParentFromGroupIfUnused go po d) x = None \<longleftrightarrow> groups d x = None"
  using same_but_rosters_groups [OF same_but_rosters_removeParentFromGroupIfUnused] by blast

lemma groups_exist_Group_updateOne [simp]:
  "groups (Group_updateOne g f d) x = None \<longleftrightarrow> groups d x = None"
  by (simp add: groups_Group_updateOne)

lemma groups_exist_ensureParentInGroup [simp]:
  "groups (ensureParentInGroup g po d) x = None \<longleftrightarrow> groups d x = None"
  by (simp add: ensureParentInGroup_def split: option.split)

lemma Student_save_Inr:
  "Student_save s st d = Inr d' \<Longrightarrow>
   d' = d\<lparr>students := (students d)(s \<mapsto> st)\<rparr> \<and> student_valid st"
  by (simp add: Student_save_def split: if_splits)

subsection \<open>The loop over the removed students\<close>

lemma detachRemoved_studs:
  "detachRemoved g xs d = Inr d' \<Longrightarrow>
   studs d' g = studs d g - {s \<in> set xs. students d s \<noteq> None}"
proof (induction xs arbitrary: d)
  case Nil
  then show ?case by simp
next
  case (Cons s xs)
  show ?case
  proof (cases "students d s")
    case None
    then show ?thesis using Cons by auto
  next
    case (Some st)
    from Cons.prems Some obtain d1 where
      sv: "Student_save s (st\<lparr>s_group := None\<rparr>) d = Inr d1"
      by (auto split: sum.splits)
    define d2 where "d2 = removeParentFromGroupIfUnused (Some g) (s_parent st)
                    (Group_updateOne g (pullStudent s) d1)"
    have d1: "d1 = d\<lparr>students := (students d)(s \<mapsto> st\<lparr>s_group := None\<rparr>)\<rparr>"
      using sv by (auto dest: Student_save_Inr)
    have r: "detachRemoved g xs d2 = Inr d'"
      using Cons.prems Some sv by (simp add: d2_def)
    have dom: "students d2 x \<noteq> None \<longleftrightarrow> students d x \<noteq> None" for x
      using Some by (simp add: d1 d2_def)
    have sets: "{s \<in> set xs. students d2 s \<noteq> None} = {s \<in> set xs. students d s \<noteq> None}"
      using dom by blast
    have "studs d2 g = studs d g - {s}"
      by (simp add: studs_pullStudent d1 d2_def)
    then have "studs d' g = studs d g - {s} - {s \<in> set xs. students d s \<noteq> None}"
      using Cons.IH [OF r] unfolding sets by simp
    moreover have "students d s \<noteq> None" using Some by simp
    ultimately show ?thesis by auto
  qed
qed

subsection \<open>The loop over the requested students\<close>

lemma leavePreviousGroup_Inr:
  assumes "leavePreviousGroup g s st d = Inr d1" and "students d s = Some st"
  shows "students d1 = (students d)(s \<mapsto> st\<lparr>s_group := Some g\<rparr>)"
    and "studs d1 g = studs d g" and "pars d1 g = pars d g"
    and "groups d1 g = None \<longleftrightarrow> groups d g = None"
proof -
  let ?d0 = "case s_group st of None \<Rightarrow> d
             | Some pg \<Rightarrow> removeParentFromGroupIfUnused (Some pg) (s_parent st)
                           (Group_updateOne pg (pullStudent s) d)"
  have st0: "students ?d0 = students d" by (simp split: option.split)
  show "students d1 = (students d)(s \<mapsto> st\<lparr>s_group := Some g\<rparr>)"
  proof (cases "s_group st = Some g")
    case True
    then have "st\<lparr>s_group := Some g\<rparr> = st" by simp
    then show ?thesis
      using assms True by (simp add: leavePreviousGroup_def map_upd_triv)
  next
    case False
    then show ?thesis
      using assms st0 by (auto simp: leavePreviousGroup_def dest!: Student_save_Inr)
  qed
  have "s_group st \<noteq> Some g \<Longrightarrow> studs ?d0 g = studs d g \<and> pars ?d0 g = pars d g \<and>
          (groups ?d0 g = None \<longleftrightarrow> groups d g = None)"
    by (auto simp: studs_pullStudent pars_removeParentFromGroupIfUnused_other split: option.split)
  then show "studs d1 g = studs d g" and "pars d1 g = pars d g"
    and "groups d1 g = None \<longleftrightarrow> groups d g = None"
    using assms(1)
    by (auto simp: leavePreviousGroup_def studs_def pars_def dest!: Student_save_Inr split: if_splits)
qed

lemma assignRequested_frame:
  "assignRequested g xs d = Inr d' \<Longrightarrow> s \<notin> set xs \<Longrightarrow> students d' s = students d s"
proof (induction xs arbitrary: d)
  case Nil
  then show ?case by simp
next
  case (Cons x xs)
  show ?case
  proof (cases "students d x")
    case None
    then show ?thesis using Cons by auto
  next
    case (Some st)
    from Cons.prems(1) Some obtain d1 where lv: "leavePreviousGroup g x st d = Inr d1"
      by (auto split: sum.splits)
    let ?d2 = "ensureParentInGroup g (s_parent st) (Group_updateOne g (addStudent x) d1)"
    have r: "assignRequested g xs ?d2 = Inr d'"
      using Cons.prems Some lv by simp
    have "students ?d2 s = students d s"
      using leavePreviousGroup_Inr(1) [OF lv Some] Cons.prems(2) by simp
    then show ?thesis
      using Cons.IH [OF r] Cons.prems(2) by simp
  qed
qed

lemma assignRequested_post:
  assumes "assignRequested g xs d = Inr d'" and "groups d g \<noteq> None"
  shows "studs d' g = studs d g \<union> {s \<in> set xs. students d s \<noteq> None} \<and>
         pars d g \<subseteq> pars d' g \<and>
         (\<forall>s\<in>set xs. \<forall>st. students d s = Some st \<longrightarrow>
            students d' s = Some (st\<lparr>s_group := Some g\<rparr>) \<and>
            (\<forall>p. s_parent st = Some p \<longrightarrow> p \<in> pars d' g))"
  using assms
proof (induction xs arbitrary: d)
  case Nil
  then show ?case by simp
next
  case (Cons x xs)
  show ?case
  proof (cases "students d x")
    case None
    then show ?thesis using Cons by auto
  next
    case (Some st)
    from Cons.prems(1) Some obtain d1 where lv: "leavePreviousGroup g x st d = Inr d1"
      by (auto split: sum.splits)
    note l = leavePreviousGroup_Inr [OF lv Some]
    define d2 where "d2 = ensureParentInGroup g (s_parent st) (Group_updateOne g (addStudent x) d1)"
    have r: "assignRequested g xs d2 = Inr d'"
      using Cons.prems Some lv by (simp add: d2_def)
    have g1: "groups d1 g \<noteq> None" using l(4) Cons.prems(2) by simp
    then have g2: "groups d2 g \<noteq> None" by (simp add: d2_def)
    have st2: "students d2 = (students d)(x \<mapsto> st\<lparr>s_group := Some g\<rparr>)"
      using l(1) by (simp add: d2_def)
    have studs2: "studs d2 g = insert x (studs d g)"
      using g1 by (simp add: d2_def studs_addStudent l(2))
    have pars2: "pars d2 g = (case s_parent st of None \<Rightarrow> pars d g | Some p \<Rightarrow> insert p (pars d g))"
      using g1 by (simp add: d2_def pars_ensureParentInGroup l(3) split: option.split)
    note ih = Cons.IH [OF r g2]
    have ih1: "studs d' g = studs d2 g \<union> {s \<in> set xs. students d2 s \<noteq> None}"
      and ih2: "pars d2 g \<subseteq> pars d' g"
      and ih3: "\<And>s st. s \<in> set xs \<Longrightarrow> students d2 s = Some st \<Longrightarrow>
            students d' s = Some (st\<lparr>s_group := Some g\<rparr>) \<and>
            (\<forall>p. s_parent st = Some p \<longrightarrow> p \<in> pars d' g)"
      using ih by blast+
    have a: "studs d' g = studs d g \<union> {s \<in> set (x # xs). students d s \<noteq> None}"
      unfolding ih1 studs2 st2 using Some by auto
    have b: "pars d g \<subseteq> pars d' g"
      using ih2 unfolding pars2 by (auto split: option.splits)
    have c: "students d' s = Some (st'\<lparr>s_group := Some g\<rparr>) \<and>
            (\<forall>p. s_parent st' = Some p \<longrightarrow> p \<in> pars d' g)"
      if s: "s \<in> set (x # xs)" and st': "students d s = Some st'" for s st'
    proof (cases "s \<in> set xs")
      case True
      have "students d2 s = Some (if s = x then st\<lparr>s_group := Some g\<rparr> else st')"
        using st' by (simp add: st2)
      from ih3 [OF True this] show ?thesis
        using st' Some by (auto split: if_splits)
    next
      case False
      with s have sx: "s = x" by simp
      have "students d' s = students d2 s"
        using assignRequested_frame [OF r False] by simp
      moreover have "\<forall>p. s_parent st = Some p \<longrightarrow> p \<in> pars d' g"
        using ih2 unfolding pars2 by (auto split: option.splits)
      ultimately show ?thesis
        using st' Some sx by (simp add: st2)
    qed
    show ?thesis using a b c by blast
  qed
qed

subsection \<open>The loop that detaches every student\<close>

lemma Student_find_update_same:
  "students d y = Some st \<Longrightarrow> f st' = f st \<Longrightarrow>
   Student_find f (d\<lparr>students := (students d)(y \<mapsto> st')\<rparr>) = Student_find f d"
  by (auto simp: Student_find_def intro!: filter_cong)

lemma Student_countDocuments_update_same:
  "students d y = Some st \<Longrightarrow> f st' = f st \<Longrightarrow>
   Student_countDocuments f (d\<lparr>students := (students d)(y \<mapsto> st')\<rparr>) = Student_countDocuments f d"
  by (simp add: Student_countDocuments_def Student_find_update_same)

lemma Student_countDocuments_removeParentFromGroupIfUnused [simp]:
  "Student_countDocuments f (removeParentFromGroupIfUnused go po d) = Student_countDocuments f d"
  by (simp add: Student_countDocuments_def Student_find_def)

lemma pars_removeParentFromGroupIfUnused:
  "pars (removeParentFromGroupIfUnused (Some g) (Some p) d) x =
     (if x = g \<and> Student_countDocuments (\<lambda>st. s_group st = Some g \<and> s_parent st = Some p) d = 0
      then pars d x - {p} else pars d x)"
  by (auto simp: pars_def groups_removeParentFromGroupIfUnused pullParent_def split: option.splits)

lemma parent_used_detach_own:
  "parent_used g p (removeParentFromGroupIfUnused (Some g) (Some p) d)"
  by (simp add: parent_used_def pars_removeParentFromGroupIfUnused)

lemma parent_used_detach_other:
  assumes "students d y = Some st" and "parent_used g p d" and "s_parent st \<noteq> Some p"
  shows "parent_used g p (removeParentFromGroupIfUnused (Some g) (s_parent st)
           (d\<lparr>students := (students d)(y \<mapsto> st\<lparr>s_group := None\<rparr>)\<rparr>))"
proof -
  let ?d1 = "d\<lparr>students := (students d)(y \<mapsto> st\<lparr>s_group := None\<rparr>)\<rparr>"
  let ?f = "\<lambda>st. s_group st = Some g \<and> s_parent st = Some p"
  have c: "Student_countDocuments ?f ?d1 = Student_countDocuments ?f d"
    using assms(1,3) by (intro Student_countDocuments_update_same) auto
  have "pars (removeParentFromGroupIfUnused (Some g) (s_parent st) ?d1) g \<subseteq> pars d g"
    using pars_removeParentFromGroupIfUnused_subset [of "Some g" "s_parent st" ?d1 g] by simp
  then show ?thesis
    using assms(2) c by (auto simp: parent_used_def)
qed

lemma detachAll_post:
  assumes "detachAll g xs d = Inr d'"
  shows "(\<forall>s. s \<notin> set xs \<longrightarrow> students d' s = students d s) \<and>
         (\<forall>s\<in>set xs. \<forall>st. students d s = Some st \<longrightarrow> students d' s = Some (st\<lparr>s_group := None\<rparr>)) \<and>
         studs d' = studs d \<and>
         (\<forall>p. parent_used g p d \<longrightarrow> parent_used g p d') \<and>
         (\<forall>s\<in>set xs. \<forall>st p. students d s = Some st \<longrightarrow> s_parent st = Some p \<longrightarrow> parent_used g p d')"
  using assms
proof (induction xs arbitrary: d)
  case Nil
  then show ?case by simp
next
  case (Cons x xs)
  show ?case
  proof (cases "students d x")
    case None
    then show ?thesis using Cons by auto
  next
    case (Some st)
    from Cons.prems Some obtain d1 where
      sv: "Student_save x (st\<lparr>s_group := None\<rparr>) d = Inr d1"
      by (auto split: sum.splits)
    have d1: "d1 = d\<lparr>students := (students d)(x \<mapsto> st\<lparr>s_group := None\<rparr>)\<rparr>"
      using sv by (auto dest: Student_save_Inr)
    define d2 where "d2 = removeParentFromGroupIfUnused (Some g) (s_parent st) d1"
    have r: "detachAll g xs d2 = Inr d'"
      using Cons.prems Some sv by (simp add: d2_def)
    have st2: "students d2 = (students d)(x \<mapsto> st\<lparr>s_group := None\<rparr>)"
      by (simp add: d2_def d1)
    have studs2: "studs d2 = studs d"
      by (simp add: d2_def d1)
    have own: "parent_used g p d2" if "s_parent st = Some p" for p
      using that parent_used_detach_own [of g p d1] by (simp add: d2_def)
    have other: "parent_used g p d2" if "parent_used g p d" for p
    proof (cases "s_parent st = Some p")
      case True
      then show ?thesis by (rule own)
    next
      case False
      then show ?thesis
        using parent_used_detach_other [OF Some that False] by (simp add: d2_def d1)
    qed
    note ih = Cons.IH [OF r]
    have ih1: "\<And>s. s \<notin> set xs \<Longrightarrow> students d' s = students d2 s"
      and ih2: "\<And>s st. s \<in> set xs \<Longrightarrow> students d2 s = Some st \<Longrightarrow>
                  students d' s = Some (st\<lparr>s_group := None\<rparr>)"
      and ih3: "studs d' = studs d2"
      and ih4: "\<And>p. parent_used g p d2 \<Longrightarrow> parent_used g p d'"
      and ih5: "\<And>s st p. s \<in> set xs \<Longrightarrow> students d2 s = Some st \<Longrightarrow> s_parent st = Some p \<Longrightarrow>
                  parent_used g p d'"
      using ih by blast+
    have a: "students d' s = students d s" if "s \<notin> set (x # xs)" for s
      using that ih1 [of s] by (simp add: st2)
    have b: "students d' s = Some (st'\<lparr>s_group := None\<rparr>)"
      if "s \<in> set (x # xs)" and "students d s = Some st'" for s st'
    proof (cases "s \<in> set xs")
      case True
      have "students d2 s = Some (if s = x then st\<lparr>s_group := None\<rparr> else st')"
        using that(2) by (simp add: st2)
      from ih2 [OF True this] show ?thesis
        using that(2) Some by (auto split: if_splits)
    next
      case False
      with that(1) have "s = x" by simp
      then show ?thesis
        using ih1 [OF False] that(2) Some by (simp add: st2)
    qed
    have c: "studs d' = studs d" by (simp add: ih3 studs2)
    have e: "parent_used g p d'" if "parent_used g p d" for p
      using that by (intro ih4 other)
    have f: "parent_used g p d'"
      if "s \<in> set (x # xs)" and "students d s = Some st'" and "s_parent st' = Some p" for s st' p
    proof (cases "s = x")
      case True
      then have "s_parent st = Some p" using that Some by simp
      then show ?thesis by (intro ih4 own)
    next
      case False
      then have "s \<in> set xs" "students d2 s = Some st'"
        using that by (simp_all add: st2)
      then show ?thesis using that(3) by (rule ih5)
    qed
    show ?thesis using a b c e f by blast
  qed
qed

subsection \<open>A settled roster\<close>

lemma Group_updateOne_id: "(\<And>G. groups d g = Some G \<Longrightarrow> f G = G) \<Longrightarrow> Group_updateOne g f d = d"
  by (auto simp: Group_updateOne_def map_upd_triv split: option.split)

lemma removeParentFromGroupIfUnused_id:
  assumes "\<And>p. po = Some p \<Longrightarrow> parent_used g p d"
  shows "removeParentFromGroupIfUnused (Some g) po d = d"
proof (cases po)
  case None
  then show ?thesis by (simp add: removeParentFromGroupIfUnused_def)
next
  case (Some p)
  let ?c = "Student_countDocuments (\<lambda>st. s_group st = Some g \<and> s_parent st = Some p) d"
  show ?thesis
  proof (cases "?c = 0")
    case False
    then show ?thesis using Some by (simp add: removeParentFromGroupIfUnused_def)
  next
    case True
    then have "p \<notin> pars d g" using assms [OF Some] by (simp add: parent_used_def)
    then have "Group_updateOne g (pullParent p) d = d"
      by (intro Group_updateOne_id) (simp add: pars_def pullParent_def pull_absent)
    then show ?thesis using Some True by (simp add: removeParentFromGroupIfUnused_def)
  qed
qed

text \<open>The loops leave a settled roster.\<close>

lemma replaceRoster_settles:
  assumes "replaceRoster g (g_students G) R d = Inr d1" and "groups d g = Some G"
  shows "roster_settled g R d1"
proof -
  have sbr: "same_but_rosters d d1"
    using same_but_rosters_replaceRoster [of d g "g_students G" R] assms(1)
    by (simp add: roster_store_def)
  have g1: "groups d1 g \<noteq> None"
    using same_but_rosters_groups [OF sbr, of g] assms(2) by simp
  have dom: "students d1 s = None \<longleftrightarrow> students d s = None" for s
    by (rule same_but_rosters_students(1) [OF sbr])
  show ?thesis
  proof (cases "R = []")
    case True
    then have da: "detachAll g (g_students G) d = Inr d1"
      using assms(1) by (auto simp: replaceRoster_def split: sum.splits)
    note p = detachAll_post [OF da]
    have "s_group st = None \<and> (\<forall>p. s_parent st = Some p \<longrightarrow> parent_used g p d1)"
      if s1: "s \<in> studs d1 g" and s2: "students d1 s = Some st" for s st
    proof -
      have s: "s \<in> set (g_students G)"
        using s1 p assms(2) by (simp add: studs_def)
      obtain st0 where st0: "students d s = Some st0"
        using dom [of s] s2 by (cases "students d s") auto
      then have "st = st0\<lparr>s_group := None\<rparr>"
        using p s s2 by auto
      moreover have "\<forall>p. s_parent st0 = Some p \<longrightarrow> parent_used g p d1"
        using p s st0 by blast
      ultimately show ?thesis by simp
    qed
    then show ?thesis
      using True g1 by (simp add: roster_settled_def)
  next
    case False
    let ?T = "filter (\<lambda>i. i \<notin> set R) (g_students G)"
    from assms(1) False obtain d0 where
      dr: "detachRemoved g ?T d = Inr d0" and ar: "assignRequested g R d0 = Inr d1"
      and ex: "length (filter (\<lambda>i. students d i \<noteq> None) R) = length R"
      by (auto simp: replaceRoster_def Let_def split: sum.splits if_splits)
    have sbr0: "same_but_rosters d d0"
      using same_but_rosters_detachRemoved [of d g ?T] dr by (simp add: outcome_def)
    have g0: "groups d0 g \<noteq> None"
      using same_but_rosters_groups [OF sbr0, of g] assms(2) by simp
    have dom0: "students d0 s = None \<longleftrightarrow> students d s = None" for s
      by (rule same_but_rosters_students(1) [OF sbr0])
    have allR: "\<forall>s\<in>set R. students d s \<noteq> None"
      using ex by (metis (mono_tags, lifting) filter_id_conv length_filter_less less_irrefl_nat)
    note p0 = detachRemoved_studs [OF dr]
    note p1 = assignRequested_post [OF ar g0]
    have a: "students d1 s = None" if "s \<in> studs d1 g" and "s \<notin> set R" for s
    proof -
      have "s \<in> studs d0 g" using p1 that by auto
      then have "s \<in> studs d g" and "\<not> (s \<in> set ?T \<and> students d s \<noteq> None)"
        using p0 by auto
      then have "students d s = None"
        using that(2) assms(2) by (auto simp: studs_def)
      then show ?thesis by (simp add: dom)
    qed
    have b: "\<exists>st. students d1 s = Some st \<and> s_group st = Some g \<and> s \<in> studs d1 g \<and>
               (\<forall>p. s_parent st = Some p \<longrightarrow> p \<in> pars d1 g)"
      if sR: "s \<in> set R" for s
    proof -
      obtain st0 where st0: "students d0 s = Some st0"
        using allR sR dom0 [of s] by (cases "students d0 s") auto
      with p1 sR have "students d1 s = Some (st0\<lparr>s_group := Some g\<rparr>)"
        and "\<forall>p. s_parent st0 = Some p \<longrightarrow> p \<in> pars d1 g"
        by blast+
      moreover have "s \<in> studs d1 g"
        using p1 sR st0 by auto
      ultimately show ?thesis by simp
    qed
    show ?thesis
      using False g1 a b by (simp add: roster_settled_def)
  qed
qed

text \<open>One entry of the payload: what it leaves.\<close>

lemma resolveParents_hasEmail:
  assumes "hasEmail item"
  obtains p d1 where
    "resolveParent q (itemEmail item) (itemNames item) d = Inr (p, d1)"
    "\<And>items ids. resolveParents q (item # items) ids d = resolveParents q items (addToSet p ids) d1"
  using resolveParents_step [OF assms, of q d] unfolding itemNames_def by blast

lemma set_Student_find:
  "set (Student_find f d) = {s. s < nextId d \<and> (\<exists>st. students d s = Some st \<and> f st)}"
  by (auto simp: Student_find_def split: option.splits)

lemma set_map_filter: "set (List.map_filter h xs) = {y. \<exists>x\<in>set xs. h x = Some y}"
  by (induction xs) (auto simp: map_filter_simps split: option.splits)

lemma set_studentParentIds:
  "set (studentParentIds g d) =
     {p. \<exists>s st. s < nextId d \<and> students d s = Some st \<and> s_group st = Some g \<and> s_parent st = Some p}"
  by (auto simp: studentParentIds_def set_map_filter set_Student_find split: option.splits)

subsection \<open>The cleanup of removed parents\<close>

lemma Parent_deleteOne_parents:
  "parents (Parent_deleteOne p d) i = (if i = p then None else parents d i)"
  by (simp add: Parent_deleteOne_def)

lemma cleanupParents_Cons:
  "\<exists>d2. cleanupParents g (p # ps) d = cleanupParents g ps d2 \<and>
        (d2 = removeParentFromGroupIfUnused (Some g) (Some p) d \<or>
         d2 = Parent_deleteOne p (removeParentFromGroupIfUnused (Some g) (Some p) d))"
  by (auto simp: Let_def)

lemma cleanupParents_parents:
  "(\<forall>i. parents (cleanupParents g ps d) i = parents d i \<or> parents (cleanupParents g ps d) i = None) \<and>
   (\<forall>i. i \<notin> set ps \<longrightarrow> parents (cleanupParents g ps d) i = parents d i)"
proof (induction ps arbitrary: d)
  case Nil
  show ?case by simp
next
  case (Cons p ps)
  obtain d2 where c: "cleanupParents g (p # ps) d = cleanupParents g ps d2"
    and d2: "d2 = removeParentFromGroupIfUnused (Some g) (Some p) d \<or>
         d2 = Parent_deleteOne p (removeParentFromGroupIfUnused (Some g) (Some p) d)"
    using cleanupParents_Cons by blast
  have a: "parents d2 i = parents d i \<or> parents d2 i = None" for i
    using d2 by (cases "i = p") (auto simp: Parent_deleteOne_parents)
  have b: "parents d2 i = parents d i" if "i \<noteq> p" for i
    using d2 that by (auto simp: Parent_deleteOne_parents)
  have ih1: "parents (cleanupParents g ps d2) i = parents d2 i \<or> parents (cleanupParents g ps d2) i = None"
    and ih2: "i \<notin> set ps \<Longrightarrow> parents (cleanupParents g ps d2) i = parents d2 i" for i
    using Cons [of d2] by simp_all
  have "parents (cleanupParents g ps d2) i = parents d i \<or> parents (cleanupParents g ps d2) i = None" for i
    using a [of i] ih1 [of i] by auto
  moreover have "parents (cleanupParents g ps d2) i = parents d i" if "i \<notin> set (p # ps)" for i
    using that b [of i] ih2 [of i] by simp
  ultimately show ?case unfolding c by blast
qed

lemma removeParentFromGroupIfUnused_absent:
  "p \<notin> pars d g \<Longrightarrow> removeParentFromGroupIfUnused (Some g) (Some p) d = d"
  by (rule removeParentFromGroupIfUnused_id) (simp add: parent_used_def)

lemma pars_Parent_deleteOne [simp]: "pars (Parent_deleteOne p d) = pars d"
  by (simp add: pars_def fun_eq_iff)

lemma cleanupParents_groups:
  "pars d g \<inter> set ps = {} \<Longrightarrow> groups (cleanupParents g ps d) = groups d"
proof (induction ps arbitrary: d)
  case Nil
  show ?case by simp
next
  case (Cons p ps)
  then have "p \<notin> pars d g" and r: "pars d g \<inter> set ps = {}" by auto
  then have e: "removeParentFromGroupIfUnused (Some g) (Some p) d = d"
    by (intro removeParentFromGroupIfUnused_absent)
  show ?case
    using Cons.IH [of d] Cons.IH [of "Parent_deleteOne p d"] r
    by (simp add: e Let_def)
qed

lemma cleanupParents_rest [simp]:
  "students (cleanupParents g ps d) = students d" "nextId (cleanupParents g ps d) = nextId d"
  using cleanupParents_frame [of g ps d] by simp_all

subsection \<open>The parent loop\<close>

lemma resolveParents_Inr:
  "resolveParents q items ids d = Inr r \<Longrightarrow> list_all hasEmail items"
proof (induction items arbitrary: ids d)
  case Nil
  show ?case by simp
next
  case (Cons x rest)
  show ?case
  proof (cases "hasEmail x")
    case False
    then show ?thesis using Cons.prems by (simp add: resolveParents_bad)
  next
    case True
    then obtain p d1 where
      u: "\<And>items ids. resolveParents q (x # items) ids d = resolveParents q items (addToSet p ids) d1"
      by (rule resolveParents_hasEmail [where q = q and d = d]) blast
    then show ?thesis using Cons True by simp
  qed
qed

lemma resolveParents_grows:
  "resolveParents q items ids d = Inr (ids', d') \<Longrightarrow> set ids \<subseteq> set ids'"
proof (induction items arbitrary: ids d)
  case Nil
  then show ?case by simp
next
  case (Cons x rest)
  have h: "hasEmail x"
    using resolveParents_Inr [OF Cons.prems] by simp
  then obtain p d1 where
    u: "\<And>items ids. resolveParents q (x # items) ids d = resolveParents q items (addToSet p ids) d1"
    by (rule resolveParents_hasEmail [where q = q and d = d]) blast
  have "resolveParents q rest (addToSet p ids) d1 = Inr (ids', d')"
    using Cons.prems by (simp add: u)
  from Cons.IH [OF this] show ?case by auto
qed

lemma same_but_parents_Inr:
  "resolveParents q items ids d = Inr (ids', e) \<Longrightarrow> same_but_parents d e"
  using same_but_parents_resolveParents [of d q items ids] by (simp add: parents_store_def)

section \<open>The references of a student along the handlers\<close>

lemma consistent_but_empty:
  "consistent_but {} d \<longleftrightarrow> ids_below d \<and> inv_group d \<and> inv_parent d"
proof -
  have s: "s \<in> studs d g \<longleftrightarrow> (\<exists>G. groups d g = Some G \<and> s \<in> set (g_students G))" for s g
    by (auto simp: studs_def split: option.splits)
  have p: "p \<in> pars d g \<longleftrightarrow> (\<exists>G. groups d g = Some G \<and> p \<in> set (g_parents G))" for p g
    by (auto simp: pars_def split: option.splits)
  show ?thesis
    unfolding consistent_but_def inv_group_def inv_parent_def s p by blast
qed

lemma consistent_but_mono: "consistent_but X d \<Longrightarrow> X \<subseteq> Y \<Longrightarrow> consistent_but Y d"
  unfolding consistent_but_def by blast

lemma consistent_butD:
  assumes "consistent_but X d" and "s \<notin> X" and "students d s = Some st"
  shows "s_group st = Some g \<Longrightarrow> s \<in> studs d g"
    and "s_parent st = Some p \<Longrightarrow> \<exists>P. parents d p = Some P \<and> s \<in> set (p_students P)"
    and "s_parent st = Some p \<Longrightarrow> s_group st = Some g \<Longrightarrow> p \<in> pars d g"
  using assms unfolding consistent_but_def by blast+

lemma consistent_but_ids: "consistent_but X d \<Longrightarrow> ids_below d"
  by (simp add: consistent_but_def)

text \<open>The student \<open>s\<close> is no longer exempt once its own references are in place.\<close>

lemma consistent_but_close:
  assumes "consistent_but (insert s X) d"
    and "\<And>st. students d s = Some st \<Longrightarrow>
        (\<forall>g. s_group st = Some g \<longrightarrow> s \<in> studs d g) \<and>
        (\<forall>p. s_parent st = Some p \<longrightarrow>
           (\<exists>P. parents d p = Some P \<and> s \<in> set (p_students P)) \<and>
           (\<forall>g. s_group st = Some g \<longrightarrow> p \<in> pars d g))"
  shows "consistent_but X d"
  unfolding consistent_but_def
proof (intro conjI allI impI)
  show "ids_below d" using assms(1) by (simp add: consistent_but_def)
next
  fix x st g
  assume "x \<notin> X" "students d x = Some st" "s_group st = Some g"
  then show "x \<in> studs d g"
    using assms(2) [of st] consistent_butD(1) [OF assms(1), of x st g] by (cases "x = s") auto
next
  fix x st p
  assume "x \<notin> X" "students d x = Some st" "s_parent st = Some p"
  then show "\<exists>P. parents d p = Some P \<and> x \<in> set (p_students P)"
    using assms(2) [of st] consistent_butD(2) [OF assms(1), of x st p] by (cases "x = s") auto
next
  fix x st p g
  assume "x \<notin> X" "students d x = Some st" "s_parent st = Some p" "s_group st = Some g"
  then show "p \<in> pars d g"
    using assms(2) [of st] consistent_butD(3) [OF assms(1), of x st p g] by (cases "x = s") auto
qed

subsection \<open>The writes to a group\<close>

lemma ids_below_Group_updateOne [simp]: "ids_below (Group_updateOne g f d) = ids_below d"
  by (auto simp: ids_below_def groups_Group_updateOne)

lemma consistent_but_pullStudent:
  assumes "consistent_but X d"
    and "s \<in> X \<or> (\<forall>st. students d s = Some st \<longrightarrow> s_group st \<noteq> Some g)"
  shows "consistent_but X (Group_updateOne g (pullStudent s) d)"
  using assms unfolding consistent_but_def
  by (simp add: studs_pullStudent) blast

lemma studs_addStudent_mono: "studs d x \<subseteq> studs (Group_updateOne g (addStudent s) d) x"
  by (auto simp: groups_Group_updateOne addStudent_def studs_def split: option.splits)

lemma consistent_but_addStudent:
  assumes "consistent_but X d"
  shows "consistent_but X (Group_updateOne g (addStudent s) d)"
  using assms studs_addStudent_mono [of d _ g s] unfolding consistent_but_def
  by simp blast

lemma pars_ensureParentInGroup_mono: "pars d x \<subseteq> pars (ensureParentInGroup g po d) x"
  by (auto simp: ensureParentInGroup_def groups_Group_updateOne addParent_def pars_def
      split: option.splits)

lemma ids_below_ensureParentInGroup [simp]: "ids_below (ensureParentInGroup g po d) = ids_below d"
  by (simp add: ensureParentInGroup_def split: option.split)

lemma consistent_but_ensureParentInGroup:
  assumes "consistent_but X d"
  shows "consistent_but X (ensureParentInGroup g po d)"
  using assms pars_ensureParentInGroup_mono [of d _ g po] unfolding consistent_but_def
  by simp blast

lemma Student_countDocuments_pos:
  assumes "students d s = Some st" and "f st" and "s < nextId d"
  shows "0 < Student_countDocuments f d"
proof -
  have "s \<in> set (Student_find f d)"
    using assms by (simp add: set_Student_find)
  then show ?thesis
    unfolding Student_countDocuments_def by (cases "Student_find f d") auto
qed

lemma Student_countDocuments_zero:
  assumes "Student_countDocuments f d = 0" and "students d s = Some st" and "s < nextId d"
  shows "\<not> f st"
  using Student_countDocuments_pos [OF assms(2) _ assms(3), of f] assms(1) by auto

lemma ids_below_removeParentFromGroupIfUnused [simp]:
  "ids_below (removeParentFromGroupIfUnused go po d) = ids_below d"
  by (simp add: removeParentFromGroupIfUnused_def Let_def split: option.split)

lemma consistent_but_removeParentFromGroupIfUnused:
  assumes "consistent_but X d"
  shows "consistent_but X (removeParentFromGroupIfUnused go po d)"
proof (cases go)
  case None
  then show ?thesis using assms by (simp add: removeParentFromGroupIfUnused_def)
next
  case g: (Some g)
  show ?thesis
  proof (cases po)
    case None
    then show ?thesis using assms g by (simp add: removeParentFromGroupIfUnused_def)
  next
    case (Some p)
    have below: "\<And>s. students d s \<noteq> None \<Longrightarrow> s < nextId d"
      using assms by (simp add: consistent_but_def ids_below_def)
    have keep: "p' \<in> pars (removeParentFromGroupIfUnused (Some g) (Some p) d) x"
      if "students d s = Some st" "s_group st = Some x" "s_parent st = Some p'" "p' \<in> pars d x"
      for s st x p'
    proof (cases "x = g \<and> p' = p")
      case True
      have "0 < Student_countDocuments (\<lambda>st. s_group st = Some g \<and> s_parent st = Some p) d"
        using that True below [of s] by (intro Student_countDocuments_pos [of d s st]) auto
      then show ?thesis using that by (simp add: pars_removeParentFromGroupIfUnused)
    next
      case False
      then show ?thesis using that by (auto simp: pars_removeParentFromGroupIfUnused)
    qed
    show ?thesis
      unfolding g Some consistent_but_def
    proof (intro conjI allI impI)
      show "ids_below (removeParentFromGroupIfUnused (Some g) (Some p) d)"
        using assms by (simp add: consistent_but_def)
    next
      fix s st x
      assume "s \<notin> X" "students (removeParentFromGroupIfUnused (Some g) (Some p) d) s = Some st"
        "s_group st = Some x"
      then show "s \<in> studs (removeParentFromGroupIfUnused (Some g) (Some p) d) x"
        using consistent_butD(1) [OF assms, of s st x] by simp
    next
      fix s st p'
      assume "s \<notin> X" "students (removeParentFromGroupIfUnused (Some g) (Some p) d) s = Some st"
        "s_parent st = Some p'"
      then show "\<exists>P. parents (removeParentFromGroupIfUnused (Some g) (Some p) d) p' = Some P \<and>
          s \<in> set (p_students P)"
        using consistent_butD(2) [OF assms, of s st p'] by simp
    next
      fix s st p' x
      assume a: "s \<notin> X" "students (removeParentFromGroupIfUnused (Some g) (Some p) d) s = Some st"
        "s_parent st = Some p'" "s_group st = Some x"
      then have "p' \<in> pars d x"
        using consistent_butD(3) [OF assms, of s st p' x] by simp
      then show "p' \<in> pars (removeParentFromGroupIfUnused (Some g) (Some p) d) x"
        using a keep [of s st x p'] by simp
    qed
  qed
qed

subsection \<open>The writes to a student\<close>

lemma ids_below_students_upd:
  "ids_below d \<Longrightarrow> students d s \<noteq> None \<Longrightarrow> ids_below (d\<lparr>students := (students d)(s \<mapsto> st)\<rparr>)"
  by (auto simp: ids_below_def)

lemma consistent_but_Student_save:
  assumes "consistent_but X d" and "Student_save s st d = Inr d'" and "s \<in> X"
    and "students d s \<noteq> None"
  shows "consistent_but X d'"
proof -
  have d': "d' = d\<lparr>students := (students d)(s \<mapsto> st)\<rparr>"
    using assms(2) by (auto simp: Student_save_def split: if_splits)
  have "ids_below d'"
    unfolding d' using assms(1,4) by (intro ids_below_students_upd) (simp_all add: consistent_but_def)
  then show ?thesis
    using assms(1,3) unfolding consistent_but_def d' by auto
qed

text \<open>A student that leaves its group needs no exemption.\<close>

lemma consistent_but_detach:
  assumes "consistent_but X d" and "Student_save s (st\<lparr>s_group := None\<rparr>) d = Inr d'"
    and "students d s = Some st"
  shows "consistent_but X d'"
proof -
  have d': "d' = d\<lparr>students := (students d)(s \<mapsto> st\<lparr>s_group := None\<rparr>)\<rparr>"
    using assms(2) by (auto simp: Student_save_def split: if_splits)
  have "ids_below d'"
    unfolding d' using assms(1,3) by (intro ids_below_students_upd) (simp_all add: consistent_but_def)
  moreover have "\<exists>P. parents d p = Some P \<and> s \<in> set (p_students P)"
    if "s \<notin> X" "s_parent st = Some p" for p
    using consistent_butD(2) [OF assms(1) that(1) assms(3) that(2)] .
  ultimately show ?thesis
    using assms(1) unfolding consistent_but_def d' by auto
qed

lemma consistent_but_Student_create:
  assumes "consistent_but X d" and "Student_create st d = Inr (s, d')"
  shows "consistent_but (insert s X) d'" and "s = nextId d" and "students d' = (students d)(s \<mapsto> st)"
    and "groups d' = groups d" and "parents d' = parents d" and "students d s = None"
proof -
  have s: "s = nextId d"
    and d': "d' = d\<lparr>students := (students d)(nextId d \<mapsto> st), nextId := Suc (nextId d)\<rparr>"
    using assms(2) by (auto simp: Student_create_def split: if_splits)
  show "s = nextId d" by (rule s)
  show "students d' = (students d)(s \<mapsto> st)" "groups d' = groups d" "parents d' = parents d"
    by (simp_all add: s d')
  have below: "ids_below d" using assms(1) by (simp add: consistent_but_def)
  then show "students d s = None"
    unfolding s ids_below_def by (metis less_irrefl)
  have "ids_below d'"
    using below unfolding d' ids_below_def by (auto simp: less_Suc_eq)
  moreover have "studs d' = studs d" "pars d' = pars d"
    by (simp_all add: studs_def pars_def fun_eq_iff d')
  ultimately show "consistent_but (insert s X) d'"
    using assms(1) unfolding consistent_but_def by (auto simp: d' s)
qed

subsection \<open>The writes to a parent\<close>

lemma consistent_but_Parent_create:
  assumes "consistent_but X d" and "Parent_create fn ln e d = Inr (p, P, d')"
  shows "consistent_but X d'" and "parents d' = (parents d)(p \<mapsto> P)" and "parents d p = None"
    and "groups d' = groups d" and "students d' = students d"
proof -
  note c = Parent_create_Inr [OF assms(2)]
  have below: "ids_below d" using assms(1) by (simp add: consistent_but_def)
  show "parents d' = (parents d)(p \<mapsto> P)" "groups d' = groups d" "students d' = students d"
    by (simp_all add: c(1,2))
  show none: "parents d p = None"
    using below unfolding c(1) ids_below_def by (metis less_irrefl)
  have "ids_below d'"
    using below unfolding c(2) ids_below_def by (auto simp: less_Suc_eq)
  moreover have "studs d' = studs d" "pars d' = pars d"
    by (simp_all add: studs_def pars_def fun_eq_iff c(2))
  ultimately show "consistent_but X d'"
    using assms(1) none unfolding consistent_but_def by (auto simp: c(1,2))
qed

lemma consistent_but_Parent_save:
  assumes "consistent_but X d" and "Parent_save p mem f d = Inr d'"
    and "\<And>P. set (p_students P) - X \<subseteq> set (p_students (f P))"
  shows "consistent_but X d'"
proof -
  from Parent_save_Inr(1) [OF assms(2)] obtain P where
    P: "parents d p = Some P" and d': "d' = d\<lparr>parents := (parents d)(p \<mapsto> f P)\<rparr>"
    by blast
  have below: "ids_below d'"
    using assms(1) P unfolding d' consistent_but_def ids_below_def by auto
  have same: "studs d' = studs d" "pars d' = pars d" "students d' = students d"
    by (simp_all add: studs_def pars_def fun_eq_iff d')
  have listed: "\<exists>Q. parents d' c = Some Q \<and> s \<in> set (p_students Q)"
    if "s \<notin> X" "parents d c = Some Q" "s \<in> set (p_students Q)" for s c Q
    using that P assms(3) [of P] by (cases "c = p") (auto simp: d')
  show ?thesis
    unfolding consistent_but_def same
  proof (intro conjI allI impI)
    show "ids_below d'" by (rule below)
  next
    fix s st g
    assume "s \<notin> X" "students d s = Some st" "s_group st = Some g"
    then show "s \<in> studs d g" by (rule consistent_butD(1) [OF assms(1)])
  next
    fix s st c
    assume a: "s \<notin> X" "students d s = Some st" "s_parent st = Some c"
    from consistent_butD(2) [OF assms(1) this] obtain Q where
      "parents d c = Some Q" "s \<in> set (p_students Q)" by blast
    then show "\<exists>Q. parents d' c = Some Q \<and> s \<in> set (p_students Q)"
      using listed a(1) by blast
  next
    fix s st c g
    assume "s \<notin> X" "students d s = Some st" "s_parent st = Some c" "s_group st = Some g"
    then show "c \<in> pars d g" by (rule consistent_butD(3) [OF assms(1)])
  qed
qed

lemma consistent_but_saveNames:
  assumes "consistent_but X d" and "saveNames a b p P n d = Inr d'"
  shows "consistent_but X d'"
proof (cases "a \<or> b")
  case True
  have "consistent_but X d'" if "Parent_save p P f d = Inr d'" "\<And>Q. p_students (f Q) = p_students Q" for f
    using consistent_but_Parent_save [OF assms(1) that(1)] that(2) by auto
  then show ?thesis
    using assms(2) True by (simp add: saveNames_def)
next
  case False
  then show ?thesis using assms by (simp add: saveNames_def)
qed

lemma consistent_but_Parent_deleteOne:
  assumes "consistent_but X d"
    and "\<And>s st. s \<notin> X \<Longrightarrow> students d s = Some st \<Longrightarrow> s_parent st \<noteq> Some c"
  shows "consistent_but X (Parent_deleteOne c d)"
proof -
  have "ids_below (Parent_deleteOne c d)"
    using assms(1) unfolding consistent_but_def ids_below_def Parent_deleteOne_def by auto
  moreover have "studs (Parent_deleteOne c d) = studs d" "pars (Parent_deleteOne c d) = pars d"
    by (simp_all add: studs_def pars_def fun_eq_iff Parent_deleteOne_def)
  moreover have "students (Parent_deleteOne c d) = students d"
    "parents (Parent_deleteOne c d) = (parents d)(c := None)"
    by (simp_all add: Parent_deleteOne_def)
  ultimately show ?thesis
    using assms unfolding consistent_but_def by auto
qed

subsection \<open>The roster loops keep the references\<close>

lemma consistent_but_detachRemoved:
  "consistent_but X d \<Longrightarrow> detachRemoved g xs d = Inr d' \<Longrightarrow> consistent_but X d'"
proof (induction xs arbitrary: d)
  case Nil
  then show ?case by simp
next
  case (Cons s xs)
  show ?case
  proof (cases "students d s")
    case None
    then show ?thesis using Cons by simp
  next
    case (Some st)
    from Cons.prems(2) Some obtain d1 where sv: "Student_save s (st\<lparr>s_group := None\<rparr>) d = Inr d1"
      by (auto split: sum.splits)
    define d2 where "d2 = removeParentFromGroupIfUnused (Some g) (s_parent st)
        (Group_updateOne g (pullStudent s) d1)"
    have r: "detachRemoved g xs d2 = Inr d'"
      using Cons.prems(2) Some sv by (simp add: d2_def)
    have c1: "consistent_but X d1"
      by (rule consistent_but_detach [OF Cons.prems(1) sv Some])
    have "students d1 s = Some (st\<lparr>s_group := None\<rparr>)"
      using Student_save_Inr [OF sv] by simp
    then have "consistent_but X (Group_updateOne g (pullStudent s) d1)"
      using c1 by (intro consistent_but_pullStudent) auto
    then have "consistent_but X d2"
      unfolding d2_def by (rule consistent_but_removeParentFromGroupIfUnused)
    then show ?thesis using r by (rule Cons.IH)
  qed
qed

lemma consistent_but_detachAll:
  "consistent_but X d \<Longrightarrow> detachAll g xs d = Inr d' \<Longrightarrow> consistent_but X d'"
proof (induction xs arbitrary: d)
  case Nil
  then show ?case by simp
next
  case (Cons s xs)
  show ?case
  proof (cases "students d s")
    case None
    then show ?thesis using Cons by simp
  next
    case (Some st)
    from Cons.prems(2) Some obtain d1 where sv: "Student_save s (st\<lparr>s_group := None\<rparr>) d = Inr d1"
      by (auto split: sum.splits)
    define d2 where "d2 = removeParentFromGroupIfUnused (Some g) (s_parent st) d1"
    have r: "detachAll g xs d2 = Inr d'"
      using Cons.prems(2) Some sv by (simp add: d2_def)
    have "consistent_but X d1"
      by (rule consistent_but_detach [OF Cons.prems(1) sv Some])
    then have "consistent_but X d2"
      unfolding d2_def by (rule consistent_but_removeParentFromGroupIfUnused)
    then show ?thesis using r by (rule Cons.IH)
  qed
qed

lemma consistent_but_leavePreviousGroup:
  assumes "consistent_but {} d" and "leavePreviousGroup g s st d = Inr d1"
    and "students d s = Some st"
  shows "consistent_but {s} d1"
proof (cases "s_group st = Some g")
  case True
  then have "d1 = d" using assms(2) by (simp add: leavePreviousGroup_def)
  then show ?thesis using assms(1) by (auto intro: consistent_but_mono)
next
  case False
  define d0 where "d0 = (case s_group st of None \<Rightarrow> d
      | Some pg \<Rightarrow> removeParentFromGroupIfUnused (Some pg) (s_parent st)
                    (Group_updateOne pg (pullStudent s) d))"
  have sv: "Student_save s (st\<lparr>s_group := Some g\<rparr>) d0 = Inr d1"
    using assms(2) False by (simp add: leavePreviousGroup_def d0_def)
  have c: "consistent_but {s} d"
    using assms(1) by (rule consistent_but_mono) simp
  have "consistent_but {s} d0"
  proof (cases "s_group st")
    case None
    then show ?thesis using c by (simp add: d0_def)
  next
    case (Some pg)
    have "consistent_but {s} (Group_updateOne pg (pullStudent s) d)"
      using c by (rule consistent_but_pullStudent) simp
    then show ?thesis
      unfolding d0_def Some option.case by (rule consistent_but_removeParentFromGroupIfUnused)
  qed
  moreover have "students d0 s \<noteq> None"
    using assms(3) by (simp add: d0_def split: option.split)
  ultimately show ?thesis
    using sv by (intro consistent_but_Student_save [of "{s}" d0 s _ d1]) simp_all
qed

lemma consistent_but_assignRequested:
  assumes "consistent_but {} d" and "assignRequested g xs d = Inr d'" and "groups d g \<noteq> None"
  shows "consistent_but {} d'"
  using assms
proof (induction xs arbitrary: d)
  case Nil
  then show ?case by simp
next
  case (Cons s xs)
  show ?case
  proof (cases "students d s")
    case None
    then show ?thesis using Cons by simp
  next
    case (Some st)
    from Cons.prems(2) Some obtain d1 where lv: "leavePreviousGroup g s st d = Inr d1"
      by (auto split: sum.splits)
    note l = leavePreviousGroup_Inr [OF lv Some]
    define d2 where "d2 = ensureParentInGroup g (s_parent st) (Group_updateOne g (addStudent s) d1)"
    have r: "assignRequested g xs d2 = Inr d'"
      using Cons.prems(2) Some lv by (simp add: d2_def)
    have g1: "groups d1 g \<noteq> None" using l(4) Cons.prems(3) by simp
    then have g2: "groups d2 g \<noteq> None" by (simp add: d2_def)
    have st2: "students d2 = (students d)(s \<mapsto> st\<lparr>s_group := Some g\<rparr>)"
      using l(1) by (simp add: d2_def)
    have studs2: "s \<in> studs d2 g"
      using g1 by (simp add: d2_def studs_addStudent)
    have pars2: "s_parent st = Some p \<Longrightarrow> p \<in> pars d2 g" for p
      using g1 by (simp add: d2_def pars_ensureParentInGroup)
    have p2: "parents d2 = parents d"
    proof -
      have "same_but_rosters d (outcome (leavePreviousGroup g s st d))"
        by (rule same_but_rosters_leavePreviousGroup [OF Some])
      then have "parents d1 = parents d"
        using lv by (simp add: outcome_def same_but_rosters_def)
      then show ?thesis by (simp add: d2_def)
    qed
    have "consistent_but {s} d1"
      by (rule consistent_but_leavePreviousGroup [OF Cons.prems(1) lv Some])
    then have "consistent_but {s} (Group_updateOne g (addStudent s) d1)"
      by (rule consistent_but_addStudent)
    then have c2: "consistent_but (insert s {}) d2"
      unfolding d2_def by (simp add: consistent_but_ensureParentInGroup)
    have "consistent_but {} d2"
    proof (rule consistent_but_close [OF c2])
      fix st'
      assume "students d2 s = Some st'"
      then have st': "st' = st\<lparr>s_group := Some g\<rparr>" by (simp add: st2)
      have "\<exists>P. parents d2 p = Some P \<and> s \<in> set (p_students P)" if "s_parent st = Some p" for p
        using consistent_butD(2) [OF Cons.prems(1), of s st p] Some that by (simp add: p2)
      then show "(\<forall>g. s_group st' = Some g \<longrightarrow> s \<in> studs d2 g) \<and>
        (\<forall>p. s_parent st' = Some p \<longrightarrow>
           (\<exists>P. parents d2 p = Some P \<and> s \<in> set (p_students P)) \<and>
           (\<forall>g. s_group st' = Some g \<longrightarrow> p \<in> pars d2 g))"
        using studs2 pars2 by (simp add: st')
    qed
    then show ?thesis using r g2 by (rule Cons.IH)
  qed
qed

lemma consistent_but_replaceRoster:
  assumes "consistent_but {} d" and "replaceRoster g current R d = Inr d1"
    and "groups d g \<noteq> None"
  shows "consistent_but {} d1"
proof (cases "R = []")
  case True
  then show ?thesis
    using assms consistent_but_detachAll [of "{}" d g current d1]
    by (auto simp: replaceRoster_def split: sum.splits)
next
  case False
  let ?T = "filter (\<lambda>i. i \<notin> set R) current"
  from assms(2) False obtain d0 where
    a: "detachRemoved g ?T d = Inr d0" and b: "assignRequested g R d0 = Inr d1"
    by (auto simp: replaceRoster_def Let_def split: if_splits sum.splits)
  have c0: "consistent_but {} d0"
    by (rule consistent_but_detachRemoved [OF assms(1) a])
  have "same_but_rosters d (outcome (detachRemoved g ?T d))"
    by (rule same_but_rosters_detachRemoved)
  then have "groups d0 g \<noteq> None"
    using a assms(3) same_but_rosters_groups [of d d0 g] by (simp add: outcome_def)
  with c0 b show ?thesis by (rule consistent_but_assignRequested)
qed

subsection \<open>The parent loop, the save of the group and the cleanup\<close>

lemma consistent_but_resolveParent:
  assumes "consistent_but X d" and "resolveParent q e n d = Inr (p, d')"
  shows "consistent_but X d'"
proof (cases "Parent_findOne q e d")
  case None
  then obtain P where "Parent_create (np_firstName n) (np_lastName n) e d = Inr (p, P, d')"
    using assms(2) by (auto simp: resolveParent_def split: sum.splits)
  then show ?thesis by (rule consistent_but_Parent_create(1) [OF assms(1)])
next
  case (Some a)
  obtain c C where a: "a = (c, C)" by (cases a)
  have "\<exists>x y. saveNames x y c C n d = Inr d'"
    using assms(2) Some a by (auto simp: resolveParent_def split: sum.splits)
  then show ?thesis using consistent_but_saveNames [OF assms(1)] by blast
qed

lemma consistent_but_resolveParents:
  "consistent_but X d \<Longrightarrow> consistent_but X (parents_store (resolveParents q items ids d))"
proof (induction items arbitrary: ids d)
  case Nil
  then show ?case by (simp add: parents_store_def)
next
  case (Cons x rest)
  show ?case
  proof (cases "hasEmail x")
    case False
    then show ?thesis using Cons.prems by (simp add: resolveParents_bad parents_store_def)
  next
    case True
    then obtain p d1 where
      r: "resolveParent q (itemEmail x) (itemNames x) d = Inr (p, d1)"
      and u: "\<And>items ids. resolveParents q (x # items) ids d = resolveParents q items (addToSet p ids) d1"
      by (rule resolveParents_hasEmail [where q = q and d = d]) blast
    have "consistent_but X d1"
      by (rule consistent_but_resolveParent [OF Cons.prems r])
    then show ?thesis
      unfolding u by (rule Cons.IH)
  qed
qed

lemma consistent_but_Group_save:
  assumes "consistent_but X d" and "Group_save g L G d = Inr d'"
    and "\<And>s st. s \<notin> X \<Longrightarrow> students d s = Some st \<Longrightarrow> s_group st = Some g \<Longrightarrow>
           s \<in> set (g_students G) \<and> (\<forall>p. s_parent st = Some p \<longrightarrow> p \<in> set (g_parents G))"
  shows "consistent_but X d'"
proof -
  from Group_save_Inr(1) [OF assms(2)] obtain G' where
    G': "groups d g = Some G'"
    and d': "d' = d\<lparr>groups := (groups d)(g \<mapsto> savedGroup L G G')\<rparr>"
    by blast
  have below: "ids_below d'"
    using assms(1) G' unfolding d' consistent_but_def ids_below_def by auto
  have studs: "studs d' x =
      (if x = g \<and> g_students G \<noteq> g_students L then set (g_students G) else studs d x)"
    and pars: "pars d' x =
      (if x = g \<and> g_parents G \<noteq> g_parents L then set (g_parents G) else pars d x)" for x
    using G' by (simp_all add: studs_def pars_def d')
  have same: "students d' = students d" "parents d' = parents d"
    by (simp_all add: d')
  show ?thesis
    unfolding consistent_but_def same
  proof (intro conjI allI impI)
    show "ids_below d'" by (rule below)
  next
    fix s st x
    assume a: "s \<notin> X" "students d s = Some st" "s_group st = Some x"
    show "s \<in> studs d' x"
      using assms(3) [OF a(1,2)] consistent_butD(1) [OF assms(1) a] a(3) by (simp add: studs)
  next
    fix s st c
    assume "s \<notin> X" "students d s = Some st" "s_parent st = Some c"
    then show "\<exists>Q. parents d c = Some Q \<and> s \<in> set (p_students Q)"
      by (rule consistent_butD(2) [OF assms(1)])
  next
    fix s st c x
    assume a: "s \<notin> X" "students d s = Some st" "s_parent st = Some c" "s_group st = Some x"
    show "c \<in> pars d' x"
      using assms(3) [OF a(1,2)] consistent_butD(3) [OF assms(1) a] a(3,4) by (simp add: pars)
  qed
qed

lemma consistent_but_cleanupParents:
  "consistent_but X d \<Longrightarrow> consistent_but X (cleanupParents g ps d)"
proof (induction ps arbitrary: d)
  case Nil
  then show ?case by simp
next
  case (Cons p ps)
  define d1 where "d1 = removeParentFromGroupIfUnused (Some g) (Some p) d"
  have c1: "consistent_but X d1"
    unfolding d1_def using Cons.prems by (rule consistent_but_removeParentFromGroupIfUnused)
  have below: "\<And>s. students d1 s \<noteq> None \<Longrightarrow> s < nextId d1"
    using c1 by (simp add: consistent_but_def ids_below_def)
  have "consistent_but X (Parent_deleteOne p d1)"
    if "Student_countDocuments (\<lambda>st. s_parent st = Some p) d1 = 0"
  proof (rule consistent_but_Parent_deleteOne [OF c1])
    fix s st
    assume "students d1 s = Some st"
    then show "s_parent st \<noteq> Some p"
      using Student_countDocuments_zero [OF that, of s st] below [of s] by simp
  qed
  then have "consistent_but X (if \<not> (Student_countDocuments (\<lambda>st. s_parent st = Some p) d1 > 0 \<or>
             Group_countDocuments (\<lambda>G. p \<in> set (g_parents G)) d1 > 0)
        then Parent_deleteOne p d1 else d1)"
    using c1 by simp
  from Cons.IH [OF this] show ?case
    unfolding d1_def by (simp only: cleanupParents.simps Let_def)
qed

lemma replaceRoster_BadRequest:
  "replaceRoster g current R d = Inl (a, e) \<Longrightarrow> a \<noteq> ServerError500 \<Longrightarrow> e = d"
  by (auto simp: replaceRoster_def Let_def split: if_splits sum.splits)

text \<open>After the roster loops the students of the group are the requested ones.\<close>

lemma settled_students:
  assumes "consistent_but {} d" and "roster_settled g R d"
    and "students d s = Some st" and "s_group st = Some g"
  shows "s \<in> set R"
proof -
  have in_g: "s \<in> studs d g"
    using consistent_butD(1) [OF assms(1) _ assms(3,4)] by simp
  show ?thesis
  proof (cases "R = []")
    case True
    then have "s_group st = None"
      using assms(2,3) in_g by (auto simp: roster_settled_def)
    then show ?thesis using assms(4) by simp
  next
    case False
    then show ?thesis
      using assms(2,3) in_g by (auto simp: roster_settled_def)
  qed
qed

lemma consistent_but_patchGroupFull:
  assumes c: "consistent_but {} d" and ok: "fst (patchGroupFull q r g body d) \<noteq> ServerError500"
  shows "consistent_but {} (snd (patchGroupFull q r g body d))"
proof (cases "r = Admin \<and> groups d g \<noteq> None")
  case False
  then show ?thesis
    using c by (cases "r = Admin") (auto simp: patchGroupFull_refused)
next
  case True
  then obtain G0 where r: "r = Admin" and G0: "groups d g = Some G0" by auto
  define R where "R = requestedStudentIds body"
  define items where "items = b_parents body"
  note first = patchGroupFull_admin [OF G0, of q body, folded R_def items_def]
  show ?thesis
  proof (cases "replaceRoster g (g_students G0) R d")
    case (Inl answer)
    obtain a e where ae: "answer = (a, e)" by (cases answer)
    have p: "patchGroupFull q r g body d = (a, e)"
      by (simp add: r first Inl ae)
    then have "a \<noteq> ServerError500" using ok by simp
    then have "e = d"
      using replaceRoster_BadRequest [of g "g_students G0" R d a e] Inl ae by simp
    then show ?thesis using c p by simp
  next
    case (Inr d1)
    have c1: "consistent_but {} d1"
      using c Inr G0 by (intro consistent_but_replaceRoster [of d g "g_students G0" R d1]) simp_all
    have settled1: "roster_settled g R d1"
      by (rule replaceRoster_settles [OF Inr G0])
    define ids where "ids = uniq (studentParentIds g d1)"
    note first1 = first [unfolded Inr sum.case, folded ids_def]
    have cp: "consistent_but {} (parents_store (resolveParents q items ids d1))"
      using c1 by (rule consistent_but_resolveParents)
    show ?thesis
    proof (cases "resolveParents q items ids d1")
      case (Inl answer)
      obtain a e where ae: "answer = (a, e)" by (cases answer)
      have "patchGroupFull q r g body d = (a, e)"
        by (simp add: r first1 Inl ae)
      then show ?thesis
        using cp by (simp add: Inl ae parents_store_def)
    next
      case (Inr res)
      obtain fin d2 where res: "res = (fin, d2)" by (cases res)
      note run = Inr [unfolded res]
      have c2: "consistent_but {} d2"
        using cp by (simp add: Inr res parents_store_def)
      have sbp: "same_but_parents d1 d2"
        by (rule same_but_parents_Inr [OF run])
      then have fr: "groups d2 = groups d1" "students d2 = students d1"
        by (simp_all add: same_but_parents_def)
      define S where "S = (editGroup body G0)\<lparr>g_students := R, g_parents := fin\<rparr>"
      note first2 = first1 [unfolded Inr res sum.case prod.case, folded S_def]
      show ?thesis
      proof (cases "Group_save g G0 S d2")
        case (Inl e)
        then have "patchGroupFull q r g body d = (ServerError500, e)"
          by (simp add: r first2)
        then show ?thesis using ok by simp
      next
        case (Inr d3)
        have p: "patchGroupFull q r g body d =
            (OK200, cleanupParents g (filter (\<lambda>i. i \<notin> set fin) (g_parents G0)) d3)"
          by (simp add: r first2 Inr)
        have sub: "set ids \<subseteq> set fin"
          by (rule resolveParents_grows [OF run])
        have below1: "\<And>s. students d1 s \<noteq> None \<Longrightarrow> s < nextId d1"
          using c1 by (simp add: consistent_but_def ids_below_def)
        have "consistent_but {} d3"
        proof (rule consistent_but_Group_save [OF c2 Inr])
          fix s st
          assume a: "students d2 s = Some st" "s_group st = Some g"
          then have st1: "students d1 s = Some st" by (simp add: fr)
          have "s \<in> set R"
            by (rule settled_students [OF c1 settled1 st1 a(2)])
          moreover have "p \<in> set fin" if "s_parent st = Some p" for p
          proof -
            have "p \<in> set (studentParentIds g d1)"
              using st1 a(2) that below1 [of s] by (auto simp: set_studentParentIds)
            then show ?thesis using sub by (auto simp: ids_def)
          qed
          ultimately show "s \<in> set (g_students S) \<and> (\<forall>p. s_parent st = Some p \<longrightarrow> p \<in> set (g_parents S))"
            by (simp add: S_def)
        qed
        then show ?thesis
          unfolding p snd_conv by (rule consistent_but_cleanupParents)
      qed
    qed
  qed
qed

subsection \<open>Creating a student\<close>

text \<open>The parent of the request: found, with its names brought up to date, or created.\<close>

lemma consistent_but_findOrCreate:
  assumes "consistent_but X d"
    and "(case Parent_findOne q e d of
            None \<Rightarrow> Parent_create fn ln e d
          | Some (p, P) \<Rightarrow>
              (case saveNames (a P) (b P) p P n d of
                 Inl x \<Rightarrow> Inl x
               | Inr d1 \<Rightarrow> Inr (p, P, d1))) = Inr (p, P, d1)"
  shows "consistent_but X d1" and "groups d1 = groups d" and "students d1 = students d"
    and "\<exists>P'. parents d1 p = Some P' \<and> p_students P' = p_students P"
proof -
  have "consistent_but X d1 \<and> groups d1 = groups d \<and> students d1 = students d \<and>
      (\<exists>P'. parents d1 p = Some P' \<and> p_students P' = p_students P)"
  proof (cases "Parent_findOne q e d")
    case None
    then have cr: "Parent_create fn ln e d = Inr (p, P, d1)"
      using assms(2) by simp
    from consistent_but_Parent_create [OF assms(1) cr] show ?thesis by simp
  next
    case (Some a')
    obtain c C where a': "a' = (c, C)" by (cases a')
    from assms(2) Some a' have sv: "saveNames (a P) (b P) p P n d = Inr d1" and pc: "c = p" "C = P"
      by (auto split: sum.splits)
    have f: "parents d p = Some P"
      using Parent_findOne_Some(1) [OF Some [unfolded a' pc]] .
    have sb: "same_but_parents d d1"
      by (rule same_but_parents_saveNames [OF sv])
    have "\<exists>P'. parents d1 p = Some P' \<and> p_students P' = p_students P"
      using sv f by (auto simp: saveNames_def dest!: Parent_save_Inr(1) split: if_splits)
    then show ?thesis
      using consistent_but_saveNames [OF assms(1) sv] sb by (simp add: same_but_parents_def)
  qed
  then show "consistent_but X d1" and "groups d1 = groups d" and "students d1 = students d"
    and "\<exists>P'. parents d1 p = Some P' \<and> p_students P' = p_students P"
    by simp_all
qed

text \<open>The writes that follow the creation of the student document.\<close>

lemma consistent_but_enrol:
  assumes c: "consistent_but {} d1" and g: "groups d1 g \<noteq> None"
    and P': "parents d1 p = Some P'" "p_students P' = p_students P"
    and cr: "Student_create st d1 = Inr (s, d2)"
    and st: "s_group st = Some g" "s_parent st = Some p"
    and push: "(if s \<notin> set (p_students P)
                then Parent_save p P (\<lambda>P'. P'\<lparr>p_students := p_students P' @ [s]\<rparr>)
                       (Group_updateOne g (addStudent s) d2)
                else Inr (Group_updateOne g (addStudent s) d2)) = Inr d4"
  shows "consistent_but {} (ensureParentInGroup_s (Some g) (Some p) d4)"
proof -
  note n = consistent_but_Student_create [OF c cr]
  define d3 where "d3 = Group_updateOne g (addStudent s) d2"
  have c3: "consistent_but {s} d3"
    unfolding d3_def using n(1) by (intro consistent_but_addStudent) simp
  have g3: "groups d3 g \<noteq> None"
    using g by (simp add: d3_def n(4) groups_Group_updateOne)
  have s3: "s \<in> studs d3 g"
    using g by (simp add: d3_def studs_addStudent n(4))
  have st3: "students d3 s = Some st"
    by (simp add: d3_def n(3))
  have p3: "parents d3 p = Some P'"
    by (simp add: d3_def n(5) P')
  have c4: "consistent_but {s} d4" and rest4: "groups d4 = groups d3" "students d4 = students d3"
    and p4: "\<exists>Q. parents d4 p = Some Q \<and> s \<in> set (p_students Q)"
  proof -
    have "consistent_but {s} d4 \<and> groups d4 = groups d3 \<and> students d4 = students d3 \<and>
        (\<exists>Q. parents d4 p = Some Q \<and> s \<in> set (p_students Q))"
    proof (cases "s \<in> set (p_students P)")
      case True
      then have "d4 = d3" using push by (simp add: d3_def)
      then show ?thesis using c3 p3 True P'(2) by simp
    next
      case False
      then have sv: "Parent_save p P (\<lambda>P'. P'\<lparr>p_students := p_students P' @ [s]\<rparr>) d3 = Inr d4"
        using push by (simp add: d3_def)
      have "consistent_but {s} d4"
        using c3 sv by (rule consistent_but_Parent_save) auto
      moreover have "d4 = d3\<lparr>parents := (parents d3)(p \<mapsto> P'\<lparr>p_students := p_students P' @ [s]\<rparr>)\<rparr>"
        using Parent_save_Inr(1) [OF sv] p3 by auto
      ultimately show ?thesis by simp
    qed
    then show "consistent_but {s} d4" and "groups d4 = groups d3" "students d4 = students d3"
      and "\<exists>Q. parents d4 p = Some Q \<and> s \<in> set (p_students Q)"
      by simp_all
  qed
  define d5 where "d5 = ensureParentInGroup g (Some p) d4"
  have c5: "consistent_but (insert s {}) d5"
    unfolding d5_def using c4 by (simp add: consistent_but_ensureParentInGroup)
  have g4: "groups d4 g \<noteq> None" using g3 by (simp add: rest4)
  have "studs d4 = studs d3"
    by (simp add: studs_def fun_eq_iff rest4)
  then have s5: "s \<in> studs d5 g"
    using s3 by (simp add: d5_def)
  have pars5: "p \<in> pars d5 g"
    using g4 by (simp add: d5_def pars_ensureParentInGroup)
  have "consistent_but {} d5"
  proof (rule consistent_but_close [OF c5])
    fix st'
    assume "students d5 s = Some st'"
    then have "st' = st" by (simp add: d5_def rest4 st3)
    then show "(\<forall>g. s_group st' = Some g \<longrightarrow> s \<in> studs d5 g) \<and>
        (\<forall>p. s_parent st' = Some p \<longrightarrow>
           (\<exists>P. parents d5 p = Some P \<and> s \<in> set (p_students P)) \<and>
           (\<forall>g. s_group st' = Some g \<longrightarrow> p \<in> pars d5 g))"
      using s5 pars5 p4 st by (simp add: d5_def)
  qed
  then show ?thesis by (simp add: d5_def ensureParentInGroup_s_def)
qed

lemma consistent_but_createStudent:
  assumes c: "consistent_but {} d" and ok: "fst (createStudent q r body d) \<noteq> ServerError500"
  shows "consistent_but {} (snd (createStudent q r body d))"
proof (cases "r = Admin \<and> (\<exists>pe. sb_parentEmail body = Some pe \<and> pe \<noteq> []) \<and>
    (\<exists>g. sb_groupId body = Some g \<and> groups d g \<noteq> None)")
  case False
  then have "snd (createStudent q r body d) = d"
    by (auto simp: createStudent_def split: option.splits)
  then show ?thesis using c by simp
next
  case True
  then obtain pe g where r: "r = Admin" and pe: "sb_parentEmail body = Some pe" "pe \<noteq> []"
    and g: "sb_groupId body = Some g" "groups d g \<noteq> None"
    by blast
  define e where "e = toLowerCase pe"
  define n where "n = normalizeParentName (sb_parentName body)"
  define found where "found =
     (case Parent_findOne q e d of
        None \<Rightarrow> Parent_create (np_firstName n) (np_lastName n) e d
      | Some (p, P) \<Rightarrow>
          (case saveNames (np_firstName n \<noteq> [] \<and> p_firstName P \<noteq> Some (np_firstName n))
                  (np_lastName n \<noteq> [] \<and> p_lastName P \<noteq> Some (np_lastName n)) p P n d of
             Inl x \<Rightarrow> Inl x
           | Inr d1 \<Rightarrow> Inr (p, P, d1)))"
  define created where "created p d1 =
     (case (sb_firstName body, sb_lastName body, sb_age body) of
        (Some fn, Some ln, Some a) \<Rightarrow>
          Student_create
            \<lparr>s_firstName = trim fn, s_lastName = trim ln, s_age = a,
             s_group = Some g, s_parent = Some p,
             s_parentName = Some (trim (np_fullName n)),
             s_parentEmail = setEmail e\<rparr> d1
      | _ \<Rightarrow> Inl d1)" for p d1
  define pushed where "pushed p P s d3 =
     (if s \<notin> set (p_students P)
      then Parent_save p P (\<lambda>P'. P'\<lparr>p_students := p_students P' @ [s]\<rparr>) d3
      else Inr d3)" for p P s d3
  have eq: "createStudent q r body d =
     (case found of
        Inl x \<Rightarrow> (ServerError500, x)
      | Inr (p, P, d1) \<Rightarrow>
          (case created p d1 of
             Inl x \<Rightarrow> (ServerError500, x)
           | Inr (s, d2) \<Rightarrow>
               (let d3 = Group_updateOne g (addStudent s) d2
                in case pushed p P s d3 of
                     Inl x \<Rightarrow> (ServerError500, x)
                   | Inr d4 \<Rightarrow> (Created201, ensureParentInGroup_s (Some g) (Some p) d4))))"
  proof -
    from g(2) obtain G where G: "groups d g = Some G" by auto
    show ?thesis
      unfolding createStudent_def found_def created_def pushed_def e_def n_def
      by (simp add: r pe g(1) G Let_def)
  qed
  show ?thesis
  proof (cases found)
    case (Inl x)
    then show ?thesis using ok by (simp add: eq)
  next
    case (Inr t)
    obtain p P d1 where t: "t = (p, P, d1)" by (cases t)
    note f = consistent_but_findOrCreate [OF c Inr [unfolded found_def t]]
    from f(4) obtain P' where P': "parents d1 p = Some P'" "p_students P' = p_students P"
      by blast
    show ?thesis
    proof (cases "created p d1")
      case (Inl x)
      then show ?thesis using ok by (simp add: eq Inr t)
    next
      case cr: (Inr u)
      obtain s d2 where u: "u = (s, d2)" by (cases u)
      from cr [unfolded created_def u] obtain st where
        st: "Student_create st d1 = Inr (s, d2)" "s_group st = Some g" "s_parent st = Some p"
        by (auto split: option.splits)
      show ?thesis
      proof (cases "pushed p P s (Group_updateOne g (addStudent s) d2)")
        case (Inl x)
        then show ?thesis using ok by (simp add: eq Inr t cr u Let_def)
      next
        case ps: (Inr d4)
        have "consistent_but {} (ensureParentInGroup_s (Some g) (Some p) d4)"
          using f(1) _ P' st ps [unfolded pushed_def]
          by (rule consistent_but_enrol) (simp add: f(2) g(2))
        then show ?thesis by (simp add: eq Inr t cr u ps Let_def)
      qed
    qed
  qed
qed

subsection \<open>Updating a student\<close>

lemma castEmail_plain: "q \<longrightarrow> trim pe = pe \<Longrightarrow> castEmail q (toLowerCase pe) = toLowerCase pe"
  by (auto simp: castEmail_def setEmail_def trim_toLowerCase)

text \<open>
  The change of parent. The parent that is found or created is another one than
  the current parent, whose e-mail differs from the e-mail of the filter.
\<close>

lemma consistent_but_switchParent:
  assumes c: "consistent_but {s} d"
    and cur: "\<And>c C. currentParent = Some (c, C) \<Longrightarrow> parents d c = Some C \<and> p_email C \<noteq> e"
    and em: "castEmail q e = e"
    and run: "switchParent q s e n currentParent d = Inr ((nx, N), d')"
  shows "consistent_but {s} d'" and "groups d' = groups d" and "students d' = students d"
    and "\<exists>Q. parents d' nx = Some Q \<and> s \<in> set (p_students Q)"
proof -
  define found where "found =
    (case Parent_findOne q e d of
       None \<Rightarrow> Parent_create (np_firstName n) (np_lastName n) e d
     | Some (p, P) \<Rightarrow> Inr (p, P, d))"
  define left where "left N0 da =
    (case currentParent of
       None \<Rightarrow> Inr da
     | Some (c, C) \<Rightarrow>
         (case Parent_save c C (\<lambda>P'. P'\<lparr>p_students := pull s (p_students P')\<rparr>) da of
            Inl x \<Rightarrow> Inl x
          | Inr d2 \<Rightarrow>
              Inr (if length (pull s (p_students C)) = 0 then Parent_deleteOne c d2 else d2)))"
    for N0 :: parent and da
  have eq: "switchParent q s e n currentParent d =
    (case found of
       Inl x \<Rightarrow> Inl x
     | Inr (nx, N, d1) \<Rightarrow>
         (case left N d1 of
            Inl x \<Rightarrow> Inl x
          | Inr d3 \<Rightarrow>
              if s \<notin> set (p_students N)
              then (case Parent_save nx N (\<lambda>P'. P'\<lparr>p_students := p_students P' @ [s]\<rparr>) d3 of
                      Inl x \<Rightarrow> Inl x
                    | Inr d4 \<Rightarrow> Inr ((nx, N\<lparr>p_students := p_students N @ [s]\<rparr>), d4))
              else Inr ((nx, N), d3)))"
    unfolding switchParent_def found_def left_def by simp
  from run obtain t where fo: "found = Inr t"
    unfolding eq by (cases found) auto
  obtain nx0 N0 da where t: "t = (nx0, N0, da)" by (cases t)
  from run obtain db where le: "left N0 da = Inr db"
    unfolding eq fo t by (cases "left N0 da") auto
  have nx0: "nx0 = nx"
    using run unfolding eq fo t le by (auto split: if_splits sum.splits)
  note fo = fo [unfolded t nx0]
  txt \<open>The parent of the request.\<close>
  have ca: "consistent_but {s} da" and ga: "groups da = groups d" "students da = students d"
    and na: "parents da nx = Some N0"
    and keep: "\<And>i. i \<noteq> nx \<Longrightarrow> parents da i = parents d i"
    and fresh: "\<And>c C. currentParent = Some (c, C) \<Longrightarrow> c \<noteq> nx"
  proof -
    have "consistent_but {s} da \<and> groups da = groups d \<and> students da = students d \<and>
        parents da nx = Some N0 \<and> (\<forall>i. i \<noteq> nx \<longrightarrow> parents da i = parents d i) \<and>
        (\<forall>c C. currentParent = Some (c, C) \<longrightarrow> c \<noteq> nx)"
    proof (cases "Parent_findOne q e d")
      case None
      then have cr: "Parent_create (np_firstName n) (np_lastName n) e d = Inr (nx, N0, da)"
        using fo by (simp add: found_def)
      note k = consistent_but_Parent_create [OF c cr]
      have "c' \<noteq> nx" if "currentParent = Some (c', C)" for c' C
        using cur [OF that] k(3) by auto
      then show ?thesis using k by auto
    next
      case (Some a)
      obtain p P where a: "a = (p, P)" by (cases a)
      from fo Some a have same: "p = nx" "P = N0" "da = d"
        by (simp_all add: found_def)
      note f = Parent_findOne_Some [OF Some [unfolded a same]]
      have "c' \<noteq> nx" if "currentParent = Some (c', C)" for c' C
        using cur [OF that] f(1,2) em by auto
      then show ?thesis using c f(1) same by auto
    qed
    then show "consistent_but {s} da" and "groups da = groups d" "students da = students d"
      and "parents da nx = Some N0"
      and "\<And>i. i \<noteq> nx \<Longrightarrow> parents da i = parents d i"
      and "\<And>c C. currentParent = Some (c, C) \<Longrightarrow> c \<noteq> nx"
      by blast+
  qed
  txt \<open>The parent the student leaves.\<close>
  have cb: "consistent_but {s} db" and gb: "groups db = groups da" "students db = students da"
    and nb: "parents db nx = Some N0"
  proof -
    have "consistent_but {s} db \<and> groups db = groups da \<and> students db = students da \<and>
        parents db nx = Some N0"
    proof (cases currentParent)
      case None
      then have "db = da" using le by (simp add: left_def)
      then show ?thesis using ca na by simp
    next
      case (Some a)
      obtain c' C where a: "a = (c', C)" by (cases a)
      note cu = cur [OF Some [unfolded a]]
      have ne: "c' \<noteq> nx" using fresh [OF Some [unfolded a]] .
      from le Some a obtain d2 where
        sv: "Parent_save c' C (\<lambda>P'. P'\<lparr>p_students := pull s (p_students P')\<rparr>) da = Inr d2"
        and db: "db = (if length (pull s (p_students C)) = 0 then Parent_deleteOne c' d2 else d2)"
        by (auto simp: left_def split: sum.splits)
      have pc: "parents da c' = Some C" using cu keep [of c'] ne by simp
      have d2: "d2 = da\<lparr>parents := (parents da)(c' \<mapsto> C\<lparr>p_students := pull s (p_students C)\<rparr>)\<rparr>"
        using Parent_save_Inr(1) [OF sv] pc by auto
      have c2: "consistent_but {s} d2"
        using ca sv by (rule consistent_but_Parent_save) auto
      have "consistent_but {s} (Parent_deleteOne c' d2)" if empty: "pull s (p_students C) = []"
      proof (rule consistent_but_Parent_deleteOne [OF c2])
        fix s' st'
        assume a: "s' \<notin> {s}" "students d2 s' = Some st'"
        show "s_parent st' \<noteq> Some c'"
        proof
          assume "s_parent st' = Some c'"
          from consistent_butD(2) [OF c2 a this] have "s' \<in> set (pull s (p_students C))"
            by (simp add: d2)
          then show False using empty by simp
        qed
      qed
      then have "consistent_but {s} db"
        using c2 by (simp add: db)
      moreover have "parents db nx = Some N0"
        using na ne by (simp add: db d2 Parent_deleteOne_def)
      ultimately show ?thesis
        by (simp add: db d2 Parent_deleteOne_def)
    qed
    then show "consistent_but {s} db" and "groups db = groups da" "students db = students da"
      and "parents db nx = Some N0"
      by simp_all
  qed
  txt \<open>The parent the student joins.\<close>
  have "consistent_but {s} d' \<and> groups d' = groups db \<and> students d' = students db \<and>
      (\<exists>Q. parents d' nx = Some Q \<and> s \<in> set (p_students Q))"
  proof (cases "s \<in> set (p_students N0)")
    case True
    then have "d' = db" using run unfolding eq fo by (simp add: le)
    then show ?thesis using cb nb True by simp
  next
    case False
    then have sv: "Parent_save nx N0 (\<lambda>P'. P'\<lparr>p_students := p_students P' @ [s]\<rparr>) db = Inr d'"
      using run unfolding eq fo by (auto simp: le split: sum.splits)
    have "consistent_but {s} d'"
      using cb sv by (rule consistent_but_Parent_save) auto
    moreover have "d' = db\<lparr>parents := (parents db)(nx \<mapsto> N0\<lparr>p_students := p_students N0 @ [s]\<rparr>)\<rparr>"
      using Parent_save_Inr(1) [OF sv] nb by auto
    ultimately show ?thesis by simp
  qed
  then show "consistent_but {s} d'" and "groups d' = groups d" and "students d' = students d"
    and "\<exists>Q. parents d' nx = Some Q \<and> s \<in> set (p_students Q)"
    by (simp_all add: gb ga)
qed

lemma saveNames_lists:
  assumes "saveNames a b p P n d = Inr d'"
  shows "groups d' = groups d" and "students d' = students d"
    and "parents d i = Some Q \<Longrightarrow> \<exists>Q'. parents d' i = Some Q' \<and> p_students Q' = p_students Q"
  using assms
  by (auto simp: saveNames_def dest!: Parent_save_Inr(1) split: if_splits)

text \<open>The part of the update that reads the parent of the request.\<close>

lemma consistent_but_updateParent:
  assumes c: "consistent_but {s} d"
    and own: "\<And>p. s_parent st = Some p \<Longrightarrow> \<exists>P. parents d p = Some P \<and> s \<in> set (p_students P)"
    and em: "\<And>pe. sb_parentEmail body = Some pe \<Longrightarrow> castEmail q (toLowerCase pe) = toLowerCase pe"
    and run: "updateParent q s st body d = Inr (st3, d2)"
  shows "consistent_but {s} d2 \<and> groups d2 = groups d \<and> students d2 = students d \<and>
         s_group st3 = s_group st \<and>
         (\<forall>p. s_parent st3 = Some p \<longrightarrow> (\<exists>P. parents d2 p = Some P \<and> s \<in> set (p_students P)))"
proof -
  define currentParent where "currentParent =
    (case s_parent st of None \<Rightarrow> None | Some p \<Rightarrow> map_option (Pair p) (parents d p))"
  define parentName where "parentName =
    (case sb_parentName body of None \<Rightarrow> None | Some pn \<Rightarrow> if pn = [] then None else Some pn)"
  have cur: "parents d c' = Some C \<and> s_parent st = Some c'" if "currentParent = Some (c', C)" for c' C
    using that by (auto simp: currentParent_def split: option.splits)
  show ?thesis
  proof (cases "case sb_parentEmail body of None \<Rightarrow> None | Some pe \<Rightarrow> if pe = [] then None else Some pe")
    case None
    from run have r: "(case (parentName, currentParent) of
             (Some pn, Some (c, C)) \<Rightarrow>
               let n = normalizeParentName (Some pn) in
               (case saveNames (p_firstName C \<noteq> Some (np_firstName n))
                       (p_lastName C \<noteq> Some (np_lastName n)) c C n d of
                  Inl e \<Rightarrow> Inl e
                | Inr d1 \<Rightarrow> Inr (st\<lparr>s_parentName := Some (trim (np_fullName n))\<rparr>, d1))
           | _ \<Rightarrow> Inr (st, d)) = Inr (st3, d2)"
      unfolding updateParent_def currentParent_def [symmetric] parentName_def [symmetric]
      by (simp add: None Let_def)
    show ?thesis
    proof (cases "\<exists>pn c' C. parentName = Some pn \<and> currentParent = Some (c', C)")
      case False
      then have "st3 = st \<and> d2 = d"
        using r by (auto split: option.splits prod.splits)
      then show ?thesis using c own by simp
    next
      case True
      then obtain pn c' C where t: "parentName = Some pn" "currentParent = Some (c', C)"
        by blast
      from r obtain a b n where sv: "saveNames a b c' C n d = Inr d2"
        and st3: "st3 = st\<lparr>s_parentName := Some (trim (np_fullName n))\<rparr>"
        unfolding t by (auto simp: Let_def split: sum.splits)
      note l = saveNames_lists [OF sv]
      have "\<exists>P. parents d2 p = Some P \<and> s \<in> set (p_students P)" if "s_parent st = Some p" for p
        using own [OF that] l(3) [of p] by auto
      then show ?thesis
        using consistent_but_saveNames [OF c sv] l(1,2) by (simp add: st3)
    qed
  next
    case (Some pe)
    then have pe: "sb_parentEmail body = Some pe"
      by (auto split: option.splits if_splits)
    define e where "e = toLowerCase pe"
    define n where "n = normalizeParentName (case parentName of None \<Rightarrow> s_parentName st | Some pn \<Rightarrow> Some pn)"
    define switched where "switched =
      (if (case currentParent of None \<Rightarrow> True | Some (c, C) \<Rightarrow> p_email C \<noteq> e)
       then (case switchParent q s e n currentParent d of
               Inl x \<Rightarrow> Inl x
             | Inr ((nx, N), d1) \<Rightarrow> Inr (Some (nx, N), st\<lparr>s_parent := Some nx\<rparr>, d1))
       else Inr (currentParent, st, d))"
    from run have r: "(case switched of
             Inl x \<Rightarrow> Inl x
           | Inr (currentParent', st1, d1) \<Rightarrow>
               (case (case currentParent' of
                        None \<Rightarrow> Inr d1
                      | Some (c, C) \<Rightarrow>
                          saveNames (np_firstName n \<noteq> [] \<and> p_firstName C \<noteq> Some (np_firstName n))
                            (p_lastName C \<noteq> Some (np_lastName n)) c C n d1) of
                  Inl x \<Rightarrow> Inl x
                | Inr d2 \<Rightarrow>
                    Inr (st1\<lparr>s_parentEmail := setEmail e,
                             s_parentName := Some (trim (np_fullName n))\<rparr>, d2))) = Inr (st3, d2)"
      unfolding updateParent_def currentParent_def [symmetric] parentName_def [symmetric]
        switched_def e_def n_def
      by (simp add: Some Let_def)
    then obtain t where sw: "switched = Inr t"
      by (cases switched) auto
    obtain cp' st1 d1 where t: "t = (cp', st1, d1)" by (cases t)
    txt \<open>After the change of parent, if there is one.\<close>
    have k1: "consistent_but {s} d1 \<and> groups d1 = groups d \<and> students d1 = students d \<and>
        s_group st1 = s_group st \<and>
        (\<forall>p. s_parent st1 = Some p \<longrightarrow> (\<exists>P. parents d1 p = Some P \<and> s \<in> set (p_students P)))"
    proof (cases "case currentParent of None \<Rightarrow> True | Some (c, C) \<Rightarrow> p_email C \<noteq> e")
      case False
      then have "st1 = st \<and> d1 = d"
        using sw t by (simp add: switched_def)
      then show ?thesis using c own by simp
    next
      case True
      then obtain nx N where
        sp: "switchParent q s e n currentParent d = Inr ((nx, N), d1)"
        and st1: "st1 = st\<lparr>s_parent := Some nx\<rparr>"
        using sw t by (auto simp: switched_def split: sum.splits)
      have cu: "parents d c' = Some C \<and> p_email C \<noteq> e" if "currentParent = Some (c', C)" for c' C
        using cur [OF that] True that by simp
      from consistent_but_switchParent [OF c cu _ sp] em [OF pe]
      show ?thesis by (simp add: st1 e_def)
    qed
    txt \<open>After the names are brought up to date.\<close>
    have k2: "consistent_but {s} d2 \<and> groups d2 = groups d1 \<and> students d2 = students d1 \<and>
        (\<forall>i Q. parents d1 i = Some Q \<longrightarrow> (\<exists>Q'. parents d2 i = Some Q' \<and> p_students Q' = p_students Q))"
    proof (cases cp')
      case None
      then have "d2 = d1" using r by (simp add: sw t)
      then show ?thesis using k1 by simp
    next
      case (Some a)
      obtain c' C where a: "a = (c', C)" by (cases a)
      from r obtain x y where sv: "saveNames x y c' C n d1 = Inr d2"
        by (auto simp: sw t Some a split: sum.splits)
      note l = saveNames_lists [OF sv]
      show ?thesis
        using consistent_but_saveNames [OF _ sv] k1 l by blast
    qed
    have st3: "s_group st3 = s_group st1" "s_parent st3 = s_parent st1"
      using r by (auto simp: sw t split: sum.splits)
    have "\<exists>P. parents d2 p = Some P \<and> s \<in> set (p_students P)" if "s_parent st3 = Some p" for p
    proof -
      from k1 that obtain P where "parents d1 p = Some P" "s \<in> set (p_students P)"
        by (auto simp: st3)
      then show ?thesis using k2 by fastforce
    qed
    then show ?thesis using k1 k2 by (simp add: st3)
  qed
qed

text \<open>The move to the group of the request.\<close>

lemma moveStudent_Inl: "moveStudent s st gid d = Inl (a, e) \<Longrightarrow> e = d"
  by (auto simp: moveStudent_def Let_def split: option.splits if_splits)

lemma consistent_but_moveStudent:
  assumes c: "consistent_but {} d" and st0: "students d s = Some st0"
    and grp: "s_group st = s_group st0"
    and run: "moveStudent s st gid d = Inr (st2, d1)"
  shows "consistent_but {s} d1" and "parents d1 = parents d" and "students d1 = students d"
    and "s_parent st2 = s_parent st" and "s_group st2 = Some g \<Longrightarrow> s \<in> studs d1 g"
proof -
  have cs: "consistent_but {s} d"
    using c by (rule consistent_but_mono) simp
  have stay: "s_group st = Some g \<Longrightarrow> s \<in> studs d g" for g
    using consistent_butD(1) [OF c _ st0, of g] grp by simp
  have "consistent_but {s} d1 \<and> parents d1 = parents d \<and> students d1 = students d \<and>
      s_parent st2 = s_parent st \<and> (\<forall>g. s_group st2 = Some g \<longrightarrow> s \<in> studs d1 g)"
  proof (cases "\<exists>g'. gid = Some g' \<and> s_group st \<noteq> Some g'")
    case False
    then have "st2 = st \<and> d1 = d"
      using run by (auto simp: moveStudent_def split: option.splits if_splits)
    then show ?thesis using cs stay by simp
  next
    case True
    then obtain g' where g': "gid = Some g'" "s_group st \<noteq> Some g'" by blast
    define d0 where "d0 = (case s_group st of None \<Rightarrow> d
        | Some og \<Rightarrow> Group_updateOne og (pullStudent s) d)"
    from run g' have ex: "groups d g' \<noteq> None" and st2: "st2 = st\<lparr>s_group := Some g'\<rparr>"
      and d1: "d1 = Group_updateOne g' (addStudent s) d0"
      by (auto simp: moveStudent_def Let_def d0_def split: option.splits)
    have c0: "consistent_but {s} d0"
      using cs by (auto simp: d0_def intro: consistent_but_pullStudent split: option.split)
    have "groups d0 g' \<noteq> None"
      using ex by (simp add: d0_def groups_Group_updateOne split: option.split)
    then have "s \<in> studs d1 g'"
      by (simp add: d1 studs_addStudent)
    moreover have "consistent_but {s} d1"
      unfolding d1 using c0 by (rule consistent_but_addStudent)
    moreover have "parents d1 = parents d" "students d1 = students d"
      by (simp_all add: d1 d0_def split: option.split)
    ultimately show ?thesis by (simp add: st2)
  qed
  then show "consistent_but {s} d1" and "parents d1 = parents d" and "students d1 = students d"
    and "s_parent st2 = s_parent st" and "s_group st2 = Some g \<Longrightarrow> s \<in> studs d1 g"
    by simp_all
qed

text \<open>The calls after the save of the student.\<close>

lemma settleGroups_frame [simp]:
  "students (settleGroups st0 st d) = students d"
  "parents (settleGroups st0 st d) = parents d"
  "studs (settleGroups st0 st d) = studs d"
  by (simp_all add: settleGroups_def Let_def ensureParentInGroup_s_def split: option.split)

lemma consistent_but_settleGroups:
  "consistent_but X d \<Longrightarrow> consistent_but X (settleGroups st0 st d)"
  by (simp add: settleGroups_def Let_def ensureParentInGroup_s_def
      consistent_but_ensureParentInGroup consistent_but_removeParentFromGroupIfUnused
      split: option.split)

lemma pars_settleGroups:
  assumes "s_group st = Some g" and "s_parent st = Some p" and "groups d g \<noteq> None"
  shows "p \<in> pars (settleGroups st0 st d) g"
proof -
  define d1 where "d1 = ensureParentInGroup g (Some p) d"
  define d2 where "d2 = (if s_group st0 \<noteq> None \<and> Some g \<noteq> s_group st0
      then removeParentFromGroupIfUnused (s_group st0) (s_parent st0) d1 else d1)"
  have p1: "p \<in> pars d1 g"
    using assms(3) by (simp add: d1_def pars_ensureParentInGroup)
  have "pars (removeParentFromGroupIfUnused (s_group st0) (s_parent st0) d1) g = pars d1 g"
    if "Some g \<noteq> s_group st0"
    using that by (intro pars_removeParentFromGroupIfUnused_other) simp
  then have p2: "p \<in> pars d2 g"
    using p1 by (simp add: d2_def)
  have eq: "settleGroups st0 st d =
      (if s_parent st0 \<noteq> None \<and> Some p \<noteq> s_parent st0
       then removeParentFromGroupIfUnused (Some g) (s_parent st0) d2 else d2)"
    by (simp add: settleGroups_def Let_def ensureParentInGroup_s_def assms(1,2) d1_def d2_def)
  show ?thesis
  proof (cases "s_parent st0 \<noteq> None \<and> Some p \<noteq> s_parent st0")
    case False
    then show ?thesis using p2 unfolding eq by auto
  next
    case True
    then obtain p0 where "s_parent st0 = Some p0" "p0 \<noteq> p" by auto
    then show ?thesis
      using p2 unfolding eq by (simp add: pars_removeParentFromGroupIfUnused)
  qed
qed

lemma consistent_but_updateStudent:
  assumes c: "consistent_but {} d" and ok: "fst (updateStudent q r s body d) \<noteq> ServerError500"
    and em: "plain_email q body"
  shows "consistent_but {} (snd (updateStudent q r s body d))"
proof (cases "r = Admin \<and> students d s \<noteq> None")
  case False
  then have "snd (updateStudent q r s body d) = d"
    by (auto simp: updateStudent_def)
  then show ?thesis using c by simp
next
  case True
  then obtain st0 where r: "r = Admin" and st0: "students d s = Some st0" by auto
  define st1 where "st1 =
    st0\<lparr>s_firstName := (case sb_firstName body of None \<Rightarrow> s_firstName st0 | Some fn \<Rightarrow> trim fn),
        s_lastName := (case sb_lastName body of None \<Rightarrow> s_lastName st0 | Some ln \<Rightarrow> trim ln),
        s_age := (case sb_age body of None \<Rightarrow> s_age st0 | Some a \<Rightarrow> a)\<rparr>"
  have eq: "updateStudent q r s body d =
    (case moveStudent s st1 (sb_groupId body) d of
       Inl answer \<Rightarrow> answer
     | Inr (st2, d1) \<Rightarrow>
         (case updateParent q s st2 body d1 of
            Inl e \<Rightarrow> (ServerError500, e)
          | Inr (st3, d2) \<Rightarrow>
              (case Student_save s st3 d2 of
                 Inl e \<Rightarrow> (ServerError500, e)
               | Inr d3 \<Rightarrow> (OK200, settleGroups st0 st3 d3))))"
    by (simp add: updateStudent_def r st0 st1_def Let_def)
  have st1: "s_group st1 = s_group st0" "s_parent st1 = s_parent st0"
    by (simp_all add: st1_def)
  show ?thesis
  proof (cases "moveStudent s st1 (sb_groupId body) d")
    case (Inl answer)
    obtain a e where ae: "answer = (a, e)" by (cases answer)
    have "e = d" using moveStudent_Inl [OF Inl [unfolded ae]] .
    then show ?thesis using c by (simp add: eq Inl ae)
  next
    case (Inr t)
    obtain st2 d1 where t: "t = (st2, d1)" by (cases t)
    note m = consistent_but_moveStudent [OF c st0 st1(1) Inr [unfolded t]]
    show ?thesis
    proof (cases "updateParent q s st2 body d1")
      case (Inl e)
      then show ?thesis using ok by (simp add: eq Inr t)
    next
      case up: (Inr u)
      obtain st3 d2 where u: "u = (st3, d2)" by (cases u)
      have own: "\<exists>P. parents d1 p = Some P \<and> s \<in> set (p_students P)" if "s_parent st2 = Some p" for p
        using consistent_butD(2) [OF c _ st0, of p] that by (simp add: m(2,4) st1)
      have pl: "castEmail q (toLowerCase pe) = toLowerCase pe" if "sb_parentEmail body = Some pe" for pe
        using em that by (intro castEmail_plain) (simp add: plain_email_def)
      from consistent_but_updateParent [OF m(1) own pl up [unfolded u]]
      have k: "consistent_but {s} d2" "groups d2 = groups d1" "students d2 = students d1"
        "s_group st3 = s_group st2"
        "\<And>p. s_parent st3 = Some p \<Longrightarrow> \<exists>P. parents d2 p = Some P \<and> s \<in> set (p_students P)"
        by blast+
      show ?thesis
      proof (cases "Student_save s st3 d2")
        case (Inl e)
        then show ?thesis using ok by (simp add: eq Inr t up u)
      next
        case sv: (Inr d3)
        have d3: "d3 = d2\<lparr>students := (students d2)(s \<mapsto> st3)\<rparr>"
          using sv by (auto simp: Student_save_def split: if_splits)
        have c3: "consistent_but {s} d3"
          using k(1) sv by (rule consistent_but_Student_save) (simp_all add: k(3) m(3) st0)
        define d4 where "d4 = settleGroups st0 st3 d3"
        have c4: "consistent_but (insert s {}) d4"
          unfolding d4_def using c3 by (simp add: consistent_but_settleGroups)
        have studs3: "studs d3 = studs d1"
          by (simp add: d3 studs_def fun_eq_iff k(2))
        have "consistent_but {} d4"
        proof (rule consistent_but_close [OF c4])
          fix st'
          assume "students d4 s = Some st'"
          then have st': "st' = st3" by (simp add: d4_def d3)
          have a: "s \<in> studs d4 g" if "s_group st3 = Some g" for g
            using m(5) [of g] that by (simp add: d4_def studs3 k(4))
          have b: "\<exists>P. parents d4 p = Some P \<and> s \<in> set (p_students P)" if "s_parent st3 = Some p" for p
            using k(5) [OF that] by (simp add: d4_def d3)
          have "p \<in> pars d4 g" if "s_group st3 = Some g" "s_parent st3 = Some p" for g p
          proof -
            have "s \<in> studs d3 g" using m(5) [of g] that(1) by (simp add: studs3 k(4))
            then have "groups d3 g \<noteq> None" by (auto simp: studs_def split: option.splits)
            then show ?thesis
              unfolding d4_def using that by (intro pars_settleGroups) simp_all
          qed
          then show "(\<forall>g. s_group st' = Some g \<longrightarrow> s \<in> studs d4 g) \<and>
            (\<forall>p. s_parent st' = Some p \<longrightarrow>
               (\<exists>P. parents d4 p = Some P \<and> s \<in> set (p_students P)) \<and>
               (\<forall>g. s_group st' = Some g \<longrightarrow> p \<in> pars d4 g))"
            using a b by (simp add: st')
        qed
        then show ?thesis by (simp add: eq Inr t up u sv d4_def)
      qed
    qed
  qed
qed

section \<open>The invariants along a sequence of requests that are served\<close>

lemma consistent_but_perform:
  assumes "consistent_but {} d" and "fst (perform q op1 d) \<noteq> ServerError500"
    and "plain_emails q op1"
  shows "consistent_but {} (snd (perform q op1 d))"
proof (cases op1)
  case (CreateStudent body)
  then show ?thesis using assms by (simp add: consistent_but_createStudent)
next
  case (UpdateStudent s body)
  then show ?thesis using assms by (simp add: consistent_but_updateStudent plain_emails_def)
next
  case (ReplaceRoster g body)
  then show ?thesis using assms by (simp add: consistent_but_patchGroupFull)
qed

lemma run_Cons:
  "fst (run q (op1 # ops) d) = fst (perform q op1 d) # fst (run q ops (snd (perform q op1 d)))"
  "snd (run q (op1 # ops) d) = snd (run q ops (snd (perform q op1 d)))"
  by (simp_all add: split_def Let_def)

lemma consistent_but_run:
  "consistent_but {} d \<Longrightarrow> ServerError500 \<notin> set (fst (run q ops d)) \<Longrightarrow>
   list_all (plain_emails q) ops \<Longrightarrow> consistent_but {} (snd (run q ops d))"
proof (induction ops arbitrary: d)
  case Nil
  then show ?case by simp
next
  case (Cons op1 ops)
  have ok: "fst (perform q op1 d) \<noteq> ServerError500"
    "ServerError500 \<notin> set (fst (run q ops (snd (perform q op1 d))))"
    using Cons.prems(2) unfolding run_Cons(1) by auto
  have "consistent_but {} (snd (perform q op1 d))"
    using Cons.prems(1) ok(1) Cons.prems(3) by (intro consistent_but_perform) simp_all
  then show ?case
    unfolding run_Cons(2) using ok(2) Cons.prems(3) by (intro Cons.IH) simp_all
qed

text \<open>
  Claim C2, amended. A sequence of student creations, student updates and bulk
  roster replaces of an administrator starts on a store whose identifiers were
  handed out by the store and in which invariants 1 and 2 hold. If no request of
  the sequence is answered 500 and, where the filters of queries go through the
  schema setters, no student update gives a parent e-mail with white space around
  it, then invariants 1 and 2 hold after the sequence.
\<close>

theorem run_keeps_invariants:
  assumes "ids_below d" and "inv_group d" and "inv_parent d"
    and "list_all (plain_emails q) ops"
    and "ServerError500 \<notin> set (fst (run q ops d))"
  shows "inv_group (snd (run q ops d)) \<and> inv_parent (snd (run q ops d))"
proof -
  have "consistent_but {} d"
    using assms(1-3) by (simp add: consistent_but_empty)
  then have "consistent_but {} (snd (run q ops d))"
    using assms(5,4) by (rule consistent_but_run)
  then show ?thesis by (simp add: consistent_but_empty)
qed

theorem run_keeps_invariants_witness:
  "ids_below db_single \<and> inv_group db_single \<and> inv_parent db_single \<and>
   list_all (plain_emails True) busy_day \<and>
   fst (run True busy_day db_single) = [OK200, OK200, Created201] \<and>
   inv_group (snd (run True busy_day db_single)) \<and>
   inv_parent (snd (run True busy_day db_single))"
proof -
  have a: "ids_below db_single"
    by (simp add: ids_below_def db_single_def)
  have "trim (js ''B@x.com'') = js ''B@x.com''"
    by code_simp
  then have b: "list_all (plain_emails True) busy_day"
    by (simp add: busy_day_def plain_emails_def plain_email_def move_to_other_def no_change_def)
  have c: "fst (run True busy_day db_single) = [OK200, OK200, Created201]"
    by code_simp
  then have "ServerError500 \<notin> set (fst (run True busy_day db_single))"
    by simp
  from run_keeps_invariants [OF a _ _ b this] inv_single a b c show ?thesis
    by simp
qed

section \<open>The scenario of the two replaces, in every store\<close>

lemma detachRemoved_students:
  "detachRemoved g xs d = Inr d' \<Longrightarrow>
   students d' s =
     (if s \<in> set xs then map_option (\<lambda>st. st\<lparr>s_group := None\<rparr>) (students d s) else students d s)"
proof (induction xs arbitrary: d)
  case Nil
  then show ?case by simp
next
  case (Cons x xs)
  show ?case
  proof (cases "students d x")
    case None
    then have "detachRemoved g xs d = Inr d'" using Cons.prems by simp
    from Cons.IH [OF this] show ?thesis using None by auto
  next
    case (Some st)
    from Cons.prems Some obtain d1 where sv: "Student_save x (st\<lparr>s_group := None\<rparr>) d = Inr d1"
      by (auto split: sum.splits)
    define d2 where "d2 = removeParentFromGroupIfUnused (Some g) (s_parent st)
        (Group_updateOne g (pullStudent x) d1)"
    have r: "detachRemoved g xs d2 = Inr d'"
      using Cons.prems Some sv by (simp add: d2_def)
    have st2: "students d2 = (students d)(x \<mapsto> st\<lparr>s_group := None\<rparr>)"
      using Student_save_Inr [OF sv] by (simp add: d2_def)
    from Cons.IH [OF r] show ?thesis
      using Some by (auto simp: st2)
  qed
qed

lemma replaceRoster_total:
  assumes "students_valid d" and "\<forall>i\<in>set R. students d i \<noteq> None"
  shows "\<exists>d1. replaceRoster g current R d = Inr d1"
proof -
  let ?T = "filter (\<lambda>i. i \<notin> set R) current"
  obtain d0 where d0: "detachRemoved g ?T d = Inr d0"
    using detachRemoved_total [OF assms(1)] by blast
  have "same_but_rosters d d0"
    using same_but_rosters_detachRemoved [of d g ?T] d0 by (simp add: outcome_def)
  then have "students_valid d0"
    using assms(1) by (rule students_valid_same_but_rosters)
  then obtain d1 where d1: "assignRequested g R d0 = Inr d1"
    using assignRequested_total by blast
  obtain d2 where d2: "detachAll g current d = Inr d2"
    using detachAll_total [OF assms(1)] by blast
  have "filter (\<lambda>i. students d i \<noteq> None) R = R"
    using assms(2) by (simp add: filter_id_conv)
  then show ?thesis
    using d0 d1 d2 by (simp add: replaceRoster_def Let_def)
qed

text \<open>A replace with no parents in the payload that is served.\<close>

lemma patchGroupFull_served:
  assumes G0: "groups d g = Some G0" and valid: "students_valid d"
    and found: "\<forall>i\<in>set ids. students d i \<noteq> None"
    and ids: "requestedStudentIds (roster rs []) = ids" and gv: "group_valid G0"
  obtains d1 G1 where "replaceRoster g (g_students G0) ids d = Inr d1"
    and "groups d1 g = Some G1" and "group_rest G1 = group_rest G0"
    and "patchGroupFull q Admin g (roster rs []) d =
      (OK200, cleanupParents g
         (filter (\<lambda>i. i \<notin> set (uniq (studentParentIds g d1))) (g_parents G0))
         (d1\<lparr>groups := (groups d1)(g \<mapsto>
            savedGroup G0 (G0\<lparr>g_students := ids, g_parents := uniq (studentParentIds g d1)\<rparr>) G1)\<rparr>))"
proof -
  obtain d1 where rr: "replaceRoster g (g_students G0) ids d = Inr d1"
    using replaceRoster_total [OF valid found] by blast
  have sbr: "same_but_rosters d d1"
    using same_but_rosters_replaceRoster [of d g "g_students G0" ids] rr
    by (simp add: roster_store_def)
  then have "map_option group_rest (groups d1 g) = map_option group_rest (groups d g)"
    by (simp add: same_but_rosters_def)
  then obtain G1 where G1: "groups d1 g = Some G1" "group_rest G1 = group_rest G0"
    using G0 by (cases "groups d1 g") auto
  have e: "editGroup (roster rs []) G0 = G0"
    by (simp add: editGroup_def roster_def)
  have b: "b_parents (roster rs []) = []"
    by (simp add: roster_def)
  define S where "S = G0\<lparr>g_students := ids, g_parents := uniq (studentParentIds g d1)\<rparr>"
  have sv: "Group_save g G0 S d1 = Inr (d1\<lparr>groups := (groups d1)(g \<mapsto> savedGroup G0 S G1)\<rparr>)"
    using gv G1(1) by (simp add: Group_save_def S_def group_valid_def)
  have "patchGroupFull q Admin g (roster rs []) d =
      (OK200, cleanupParents g
         (filter (\<lambda>i. i \<notin> set (uniq (studentParentIds g d1))) (g_parents G0))
         (d1\<lparr>groups := (groups d1)(g \<mapsto>
            savedGroup G0 (G0\<lparr>g_students := ids, g_parents := uniq (studentParentIds g d1)\<rparr>) G1)\<rparr>))"
    unfolding patchGroupFull_admin [OF G0] ids e b
    by (simp only: rr sum.case resolveParents.simps(1) prod.case sv [unfolded S_def])
  with rr G1 show ?thesis by (rule that)
qed

lemma pars_cleanupParents_keep:
  "p \<notin> set ps \<Longrightarrow> p \<in> pars d x \<Longrightarrow> p \<in> pars (cleanupParents g ps d) x"
proof (induction ps arbitrary: d)
  case Nil
  then show ?case by simp
next
  case (Cons c ps)
  define d1 where "d1 = removeParentFromGroupIfUnused (Some g) (Some c) d"
  have p1: "p \<in> pars d1 x"
    using Cons.prems by (auto simp: d1_def pars_removeParentFromGroupIfUnused)
  then have p2: "p \<in> pars (Parent_deleteOne c d1) x" by simp
  have "p \<in> pars (cleanupParents g ps
      (if \<not> (Student_countDocuments (\<lambda>st. s_parent st = Some c) d1 > 0 \<or>
             Group_countDocuments (\<lambda>G. c \<in> set (g_parents G)) d1 > 0)
        then Parent_deleteOne c d1 else d1)) x"
    using Cons.IH [of d1] Cons.IH [of "Parent_deleteOne c d1"] p1 p2 Cons.prems(1) by simp
  then show ?case
    unfolding d1_def by (simp only: cleanupParents.simps Let_def)
qed

text \<open>The cleanup keeps the record of a parent that a student has.\<close>

lemma cleanupParents_keeps:
  assumes "students d s = Some st" and "s_parent st = Some p" and "s < nextId d"
  shows "parents (cleanupParents g ps d) p = parents d p"
  using assms
proof (induction ps arbitrary: d)
  case Nil
  then show ?case by simp
next
  case (Cons c ps)
  define d1 where "d1 = removeParentFromGroupIfUnused (Some g) (Some c) d"
  define d2 where "d2 =
      (if \<not> (Student_countDocuments (\<lambda>st. s_parent st = Some c) d1 > 0 \<or>
             Group_countDocuments (\<lambda>G. c \<in> set (g_parents G)) d1 > 0)
        then Parent_deleteOne c d1 else d1)"
  have s1: "students d1 s = Some st" "s < nextId d1"
    using Cons.prems by (simp_all add: d1_def)
  have "parents d2 p = parents d p"
  proof (cases "Student_countDocuments (\<lambda>st. s_parent st = Some c) d1 = 0")
    case True
    then have "c \<noteq> p"
      using Student_countDocuments_zero [OF True s1(1) s1(2)] Cons.prems(2) by auto
    then show ?thesis by (simp add: d2_def d1_def Parent_deleteOne_def)
  next
    case False
    then show ?thesis by (simp add: d2_def d1_def)
  qed
  moreover have "students d2 s = Some st" "s < nextId d2"
    using s1 by (simp_all add: d2_def)
  ultimately have "parents (cleanupParents g ps d2) p = parents d p"
    using Cons.IH [of d2] Cons.prems(2) by simp
  then show ?case
    unfolding d2_def d1_def by (simp only: cleanupParents.simps Let_def)
qed

lemma ids_below_cleanupParents:
  assumes "ids_below d"
  shows "ids_below (cleanupParents g ps d)"
proof -
  have f: "students (cleanupParents g ps d) = students d" "nextId (cleanupParents g ps d) = nextId d"
    and gr: "\<And>x. map_option (\<lambda>G. (group_rest G, g_students G)) (groups (cleanupParents g ps d) x) =
        map_option (\<lambda>G. (group_rest G, g_students G)) (groups d x)"
    using cleanupParents_frame [of g ps d] by blast+
  have "groups (cleanupParents g ps d) x \<noteq> None \<Longrightarrow> groups d x \<noteq> None" for x
    using gr [of x] by (cases "groups d x") auto
  moreover have "parents (cleanupParents g ps d) x \<noteq> None \<Longrightarrow> parents d x \<noteq> None" for x
    using cleanupParents_parents [of g ps d] by (auto dest!: spec [of _ x])
  ultimately show ?thesis
    using assms unfolding ids_below_def f by blast
qed

lemma Student_find_none:
  "(\<And>s st. students d s = Some st \<Longrightarrow> \<not> f st) \<Longrightarrow> Student_find f d = []"
  by (auto simp: Student_find_def filter_empty_conv split: option.splits)

lemma requested_one [simp]: "requestedStudentIds (roster [Some s] ps) = [s]"
  by (simp add: requestedStudentIds_def roster_def map_filter_simps uniq_def addToSet_def)

lemma requested_none [simp]: "requestedStudentIds (roster [] ps) = []"
  by (simp add: requestedStudentIds_def roster_def map_filter_simps uniq_def)

text \<open>The replace by \<open>s2\<close> alone.\<close>

lemma replace_by_one:
  assumes below: "ids_below d" and valid: "students_valid d"
    and G0: "groups d g = Some G0" and gv: "group_valid G0"
    and listed: "set (g_students G0) = {s1, s2}" and ne: "s1 \<noteq> s2"
    and st1: "students d s1 = Some st1"
    and st2: "students d s2 = Some st2" "s_group st2 = Some g" "s_parent st2 = Some p1"
  shows "fst (patchGroupFull q Admin g (roster [Some s2] []) d) = OK200"
    and "students (snd (patchGroupFull q Admin g (roster [Some s2] []) d)) =
          (students d)(s1 \<mapsto> st1\<lparr>s_group := None\<rparr>)"
    and "\<exists>GA. groups (snd (patchGroupFull q Admin g (roster [Some s2] []) d)) g = Some GA \<and>
          g_students GA = [s2] \<and> p1 \<in> set (g_parents GA) \<and> group_valid GA"
    and "parents (snd (patchGroupFull q Admin g (roster [Some s2] []) d)) p1 = parents d p1"
    and "ids_below (snd (patchGroupFull q Admin g (roster [Some s2] []) d))"
    and "students_valid (snd (patchGroupFull q Admin g (roster [Some s2] []) d))"
proof -
  let ?T = "filter (\<lambda>i. i \<notin> set [s2]) (g_students G0)"
  have setT: "set ?T = {s1}" using listed ne by auto
  have found: "\<forall>i\<in>set [s2]. students d i \<noteq> None" using st2(1) by simp
  obtain d1 G1 where rr: "replaceRoster g (g_students G0) [s2] d = Inr d1"
    and G1: "groups d1 g = Some G1" "group_rest G1 = group_rest G0"
    and A: "patchGroupFull q Admin g (roster [Some s2] []) d =
      (OK200, cleanupParents g
         (filter (\<lambda>i. i \<notin> set (uniq (studentParentIds g d1))) (g_parents G0))
         (d1\<lparr>groups := (groups d1)(g \<mapsto>
            savedGroup G0 (G0\<lparr>g_students := [s2], g_parents := uniq (studentParentIds g d1)\<rparr>) G1)\<rparr>))"
    by (rule patchGroupFull_served [OF G0 valid found requested_one gv, where q = q])
  define ids where "ids = uniq (studentParentIds g d1)"
  define S where "S = savedGroup G0 (G0\<lparr>g_students := [s2], g_parents := ids\<rparr>) G1"
  define dS where "dS = d1\<lparr>groups := (groups d1)(g \<mapsto> S)\<rparr>"
  define dA where "dA = cleanupParents g (filter (\<lambda>i. i \<notin> set ids) (g_parents G0)) dS"
  have A': "patchGroupFull q Admin g (roster [Some s2] []) d = (OK200, dA)"
    unfolding A dA_def dS_def S_def ids_def ..
  txt \<open>The roster loops.\<close>
  from rr st2(1) obtain da where
    dr: "detachRemoved g ?T d = Inr da" and ar: "assignRequested g [s2] da = Inr d1"
    by (auto simp: replaceRoster_def Let_def split: if_splits sum.splits)
  have sa: "students da = (students d)(s1 \<mapsto> st1\<lparr>s_group := None\<rparr>)"
  proof
    fix s
    show "students da s = ((students d)(s1 \<mapsto> st1\<lparr>s_group := None\<rparr>)) s"
      using detachRemoved_students [OF dr, of s, unfolded setT] st1 by simp
  qed
  have sa2: "students da s2 = Some st2"
    using st2(1) ne by (simp add: sa)
  have "same_but_rosters d (outcome (detachRemoved g ?T d))"
    by (rule same_but_rosters_detachRemoved)
  then have ga: "groups da g \<noteq> None"
    using dr G0 same_but_rosters_groups [of d da g] by (simp add: outcome_def)
  have d1: "d1 = ensureParentInGroup g (Some p1) (Group_updateOne g (addStudent s2) da)"
    using ar sa2 st2(2,3) by (simp add: leavePreviousGroup_def)
  have s1': "students d1 = (students d)(s1 \<mapsto> st1\<lparr>s_group := None\<rparr>)"
    by (simp add: d1 sa)
  have p1in: "p1 \<in> pars d1 g"
    using ga by (simp add: d1 pars_ensureParentInGroup groups_Group_updateOne)
  have sbr: "same_but_rosters d d1"
    using same_but_rosters_replaceRoster [of d g "g_students G0" "[s2]"] rr
    by (simp add: roster_store_def)
  have below1: "ids_below d1" by (rule ids_below_same_but_rosters [OF sbr below])
  have valid1: "students_valid d1" by (rule students_valid_same_but_rosters [OF sbr valid])
  have par1: "parents d1 = parents d" using sbr by (simp add: same_but_rosters_def)
  txt \<open>The parents of the students of the group.\<close>
  have "s2 < nextId d1"
    using below1 st2(1) ne by (auto simp: ids_below_def s1')
  then have "p1 \<in> set (studentParentIds g d1)"
    using st2 ne by (auto simp: set_studentParentIds s1')
  then have p1ids: "p1 \<in> set ids" by (simp add: ids_def)
  txt \<open>The save and the cleanup.\<close>
  have "[s2] \<noteq> g_students G0"
    using listed ne by (metis insertI1 list.set(1) list.simps(15) singletonD)
  then have Ss: "g_students S = [s2]" by (simp add: S_def)
  have Sp: "p1 \<in> set (g_parents S)"
    using p1ids p1in G1(1) by (simp add: S_def pars_def)
  have Sn: "g_name S = g_name G0" "g_location S = g_location G0"
    using G1(2) by (auto simp: S_def group_rest_def)
  have gS: "groups dS g = Some S" by (simp add: dS_def)
  have fr: "students dA = students dS" "nextId dA = nextId dS"
    and gr: "map_option (\<lambda>G. (group_rest G, g_students G)) (groups dA g) =
        map_option (\<lambda>G. (group_rest G, g_students G)) (groups dS g)"
    using cleanupParents_frame [of g "filter (\<lambda>i. i \<notin> set ids) (g_parents G0)" dS]
    unfolding dA_def by blast+
  from gr gS obtain GA where GA: "groups dA g = Some GA" "group_rest GA = group_rest S"
    "g_students GA = g_students S"
    by (cases "groups dA g") auto
  have "p1 \<in> pars dS g" using Sp by (simp add: pars_def gS)
  then have "p1 \<in> pars dA g"
    unfolding dA_def using p1ids by (intro pars_cleanupParents_keep) simp_all
  then have GAp: "p1 \<in> set (g_parents GA)" by (simp add: pars_def GA(1))
  have GAv: "group_valid GA"
    using gv GA(2) Sn by (simp add: group_valid_def group_rest_def)
  have "ids_below dS"
    using below1 G1(1) by (auto simp: ids_below_def dS_def)
  then have belowA: "ids_below dA"
    unfolding dA_def by (rule ids_below_cleanupParents)
  have sA: "students dA = (students d)(s1 \<mapsto> st1\<lparr>s_group := None\<rparr>)"
    by (simp add: fr dS_def s1')
  have "parents dA p1 = parents dS p1"
    unfolding dA_def using cleanupParents_parents [of g "filter (\<lambda>i. i \<notin> set ids) (g_parents G0)" dS]
      p1ids by simp
  then have pA: "parents dA p1 = parents d p1"
    by (simp add: dS_def par1)
  have vA: "students_valid dA"
    using valid1 by (simp add: students_valid_def fr dS_def)
  show "fst (patchGroupFull q Admin g (roster [Some s2] []) d) = OK200"
    and "students (snd (patchGroupFull q Admin g (roster [Some s2] []) d)) =
          (students d)(s1 \<mapsto> st1\<lparr>s_group := None\<rparr>)"
    and "\<exists>GA. groups (snd (patchGroupFull q Admin g (roster [Some s2] []) d)) g = Some GA \<and>
          g_students GA = [s2] \<and> p1 \<in> set (g_parents GA) \<and> group_valid GA"
    and "parents (snd (patchGroupFull q Admin g (roster [Some s2] []) d)) p1 = parents d p1"
    and "ids_below (snd (patchGroupFull q Admin g (roster [Some s2] []) d))"
    and "students_valid (snd (patchGroupFull q Admin g (roster [Some s2] []) d))"
    using sA GA(1,3) Ss GAp GAv pA belowA vA by (simp_all add: A')
qed

text \<open>The replace by no student, when \<open>s2\<close> is the only student of the group.\<close>

lemma replace_by_none:
  assumes below: "ids_below e" and valid: "students_valid e"
    and GA: "groups e g = Some GA" "g_students GA = [s2]" "p1 \<in> set (g_parents GA)" "group_valid GA"
    and st2: "students e s2 = Some st2" "s_parent st2 = Some p1"
    and only: "\<forall>s st. students e s = Some st \<longrightarrow> s_group st = Some g \<longrightarrow> s = s2"
  shows "fst (patchGroupFull q Admin g (roster [] []) e) = OK200"
    and "students (snd (patchGroupFull q Admin g (roster [] []) e)) =
          (students e)(s2 \<mapsto> st2\<lparr>s_group := None\<rparr>)"
    and "\<exists>GB. groups (snd (patchGroupFull q Admin g (roster [] []) e)) g = Some GB \<and> g_parents GB = []"
    and "parents (snd (patchGroupFull q Admin g (roster [] []) e)) p1 = parents e p1"
proof -
  have found: "\<forall>i\<in>set []. students e i \<noteq> None" by simp
  obtain d1 G1 where rr: "replaceRoster g (g_students GA) [] e = Inr d1"
    and G1: "groups d1 g = Some G1" "group_rest G1 = group_rest GA"
    and B: "patchGroupFull q Admin g (roster [] []) e =
      (OK200, cleanupParents g
         (filter (\<lambda>i. i \<notin> set (uniq (studentParentIds g d1))) (g_parents GA))
         (d1\<lparr>groups := (groups d1)(g \<mapsto>
            savedGroup GA (GA\<lparr>g_students := [], g_parents := uniq (studentParentIds g d1)\<rparr>) G1)\<rparr>))"
    by (rule patchGroupFull_served [OF GA(1) valid found requested_none GA(4), where q = q])
  from rr st2(1) obtain e1 where
    sv: "Student_save s2 (st2\<lparr>s_group := None\<rparr>) e = Inr e1"
    and d1: "d1 = removeParentFromGroupIfUnused (Some g) (Some p1) e1"
    by (auto simp: replaceRoster_def GA(2) st2(2) split: sum.splits)
  have e1: "e1 = e\<lparr>students := (students e)(s2 \<mapsto> st2\<lparr>s_group := None\<rparr>)\<rparr>"
    using Student_save_Inr [OF sv] by simp
  have s1: "students d1 = (students e)(s2 \<mapsto> st2\<lparr>s_group := None\<rparr>)"
    by (simp add: d1 e1)
  have nobody: "\<not> (s_group st = Some g)" if "students d1 s = Some st" for s st
    using that only [rule_format, of s st] by (cases "s = s2") (auto simp: s1)
  have "Student_find (\<lambda>st. s_group st = Some g) d1 = []"
    using nobody by (intro Student_find_none) auto
  then have ids: "uniq (studentParentIds g d1) = []"
    by (simp add: studentParentIds_def map_filter_simps uniq_def)
  define S where "S = savedGroup GA (GA\<lparr>g_students := [], g_parents := []\<rparr>) G1"
  define dS where "dS = d1\<lparr>groups := (groups d1)(g \<mapsto> S)\<rparr>"
  define dB where "dB = cleanupParents g (g_parents GA) dS"
  have B': "patchGroupFull q Admin g (roster [] []) e = (OK200, dB)"
    unfolding B ids dB_def dS_def S_def by simp
  have "g_parents GA \<noteq> []" using GA(3) by auto
  then have Sp: "g_parents S = []" by (auto simp: S_def)
  have gS: "groups dS g = Some S" by (simp add: dS_def)
  have "pars dS g \<inter> set (g_parents GA) = {}"
    by (simp add: pars_def gS Sp)
  then have "groups dB = groups dS"
    unfolding dB_def by (rule cleanupParents_groups)
  then have gB: "groups dB g = Some S" by (simp add: gS)
  have sB: "students dB = (students e)(s2 \<mapsto> st2\<lparr>s_group := None\<rparr>)"
    unfolding dB_def using cleanupParents_frame [of g "g_parents GA" dS] by (simp add: dS_def s1)
  have "s2 < nextId dS"
    using below st2(1) by (auto simp: ids_below_def dS_def d1 e1)
  moreover have "students dS s2 = Some (st2\<lparr>s_group := None\<rparr>)"
    by (simp add: dS_def s1)
  ultimately have "parents dB p1 = parents dS p1"
    unfolding dB_def using st2(2)
    by (intro cleanupParents_keeps [where d = dS and s = s2 and st = "st2\<lparr>s_group := None\<rparr>"])
      simp_all
  then have pB: "parents dB p1 = parents e p1"
    by (simp add: dS_def d1 e1)
  show "fst (patchGroupFull q Admin g (roster [] []) e) = OK200"
    and "students (snd (patchGroupFull q Admin g (roster [] []) e)) =
          (students e)(s2 \<mapsto> st2\<lparr>s_group := None\<rparr>)"
    and "\<exists>GB. groups (snd (patchGroupFull q Admin g (roster [] []) e)) g = Some GB \<and> g_parents GB = []"
    and "parents (snd (patchGroupFull q Admin g (roster [] []) e)) p1 = parents e p1"
    using sB gB Sp pB by (simp_all add: B')
qed

text \<open>
  Claim C5, amended. The store has the identifiers it handed out and students that
  pass their validators; group \<open>g\<close> has a name and a location and lists the
  students \<open>s1\<close> and \<open>s2\<close>, the only students whose group it is; both have the
  parent \<open>p1\<close>. The replace of the roster by \<open>s2\<close> alone, with no parents in the
  payload, is answered 200, leaves \<open>s1\<close> with no group and \<open>p1\<close> among the parents of
  the group. The replace by no student that follows is answered 200, leaves \<open>s2\<close>
  with no group and takes \<open>p1\<close> out of the parents of the group. The record of
  \<open>p1\<close> stays as it was: \<open>s1\<close> and \<open>s2\<close> still have it as parent.
\<close>

theorem two_replaces_scenario:
  assumes "ids_below d" and "students_valid d"
    and "groups d g = Some G0" and "group_valid G0"
    and "set (g_students G0) = {s1, s2}" and "s1 \<noteq> s2"
    and "students d s1 = Some st1" and "s_group st1 = Some g" and "s_parent st1 = Some p1"
    and "students d s2 = Some st2" and "s_group st2 = Some g" and "s_parent st2 = Some p1"
    and "\<forall>s st. students d s = Some st \<longrightarrow> s_group st = Some g \<longrightarrow> s = s1 \<or> s = s2"
  shows "fst (after_one q g s2 d) = OK200 \<and>
         map_option s_group (students (snd (after_one q g s2 d)) s1) = Some None \<and>
         (\<exists>G. groups (snd (after_one q g s2 d)) g = Some G \<and> p1 \<in> set (g_parents G)) \<and>
         fst (after_two q g s2 d) = OK200 \<and>
         map_option s_group (students (snd (after_two q g s2 d)) s2) = Some None \<and>
         (\<exists>G. groups (snd (after_two q g s2 d)) g = Some G \<and> p1 \<notin> set (g_parents G)) \<and>
         parents (snd (after_two q g s2 d)) p1 = parents d p1 \<and>
         map_option s_parent (students (snd (after_two q g s2 d)) s1) = Some (Some p1) \<and>
         map_option s_parent (students (snd (after_two q g s2 d)) s2) = Some (Some p1)"
proof -
  define e where "e = snd (after_one q g s2 d)"
  have only: "s = s1 \<or> s = s2" if "students d s = Some st" "s_group st = Some g" for s st
    using assms(13) that by blast
  note one = replace_by_one [OF assms(1-7) assms(10-12), where q = q, folded after_one_def, folded e_def]
  from one(3) obtain GA where GA: "groups e g = Some GA" "g_students GA = [s2]"
    "p1 \<in> set (g_parents GA)" "group_valid GA"
    by blast
  have st2e: "students e s2 = Some st2"
    using assms(6,10) by (simp add: one(2))
  have only_e: "\<forall>s st. students e s = Some st \<longrightarrow> s_group st = Some g \<longrightarrow> s = s2"
  proof (intro allI impI)
    fix s st
    assume "students e s = Some st" "s_group st = Some g"
    then show "s = s2"
      using only [of s st] by (cases "s = s1") (auto simp: one(2))
  qed
  note two = replace_by_none [OF one(5,6) GA st2e assms(12) only_e, where q = q,
      unfolded e_def, folded after_two_def]
  from two(3) obtain GB where GB: "groups (snd (after_two q g s2 d)) g = Some GB" "g_parents GB = []"
    by blast
  have "students (snd (after_two q g s2 d)) =
      (students d)(s1 \<mapsto> st1\<lparr>s_group := None\<rparr>, s2 \<mapsto> st2\<lparr>s_group := None\<rparr>)"
    using two(2) one(2) by (simp add: e_def)
  then have s: "map_option s_group (students (snd (after_two q g s2 d)) s2) = Some None"
    "map_option s_parent (students (snd (after_two q g s2 d)) s1) = Some (Some p1)"
    "map_option s_parent (students (snd (after_two q g s2 d)) s2) = Some (Some p1)"
    using assms(6,9,12) by simp_all
  have "map_option s_group (students e s1) = Some None"
    by (simp add: one(2))
  moreover have "parents (snd (after_two q g s2 d)) p1 = parents d p1"
    using two(4) one(4) by (simp add: e_def)
  ultimately show ?thesis
    using one(1) GA(1,3) two(1) GB s unfolding e_def by auto
qed

theorem two_replaces_scenario_witness:
  "ids_below db_family \<and> students_valid db_family \<and>
   groups db_family 1 = Some (club (js ''G'') [2, 3] [4]) \<and>
   group_valid (club (js ''G'') [2, 3] [4]) \<and>
   set (g_students (club (js ''G'') [2, 3] [4])) = {2, 3} \<and>
   students db_family 2 = Some (pupil (js ''S1'') (Some 1) (Some 4)) \<and>
   students db_family 3 = Some (pupil (js ''S2'') (Some 1) (Some 4)) \<and>
   {s. \<exists>st. students db_family s = Some st \<and> s_group st = Some 1} = {2, 3} \<and>
   fst (after_one True 1 3 db_family) = OK200 \<and>
   map_option s_group (students (snd (after_one True 1 3 db_family)) 2) = Some None \<and>
   (\<exists>G. groups (snd (after_one True 1 3 db_family)) 1 = Some G \<and> 4 \<in> set (g_parents G)) \<and>
   fst (after_two True 1 3 db_family) = OK200 \<and>
   map_option s_group (students (snd (after_two True 1 3 db_family)) 3) = Some None \<and>
   (\<exists>G. groups (snd (after_two True 1 3 db_family)) 1 = Some G \<and> 4 \<notin> set (g_parents G)) \<and>
   parents (snd (after_two True 1 3 db_family)) 4 = Some (mari [2, 3]) \<and>
   map_option s_parent (students (snd (after_two True 1 3 db_family)) 2) = Some (Some 4) \<and>
   map_option s_parent (students (snd (after_two True 1 3 db_family)) 3) = Some (Some 4)"
proof -
  have a: "ids_below db_family"
    by (simp add: ids_below_def db_family_def)
  have b: "students_valid db_family"
    by (simp add: students_valid_def db_family_def pupil_def student_valid_def js_def)
  have c: "groups db_family 1 = Some (club (js ''G'') [2, 3] [4])"
    "students db_family 2 = Some (pupil (js ''S1'') (Some 1) (Some 4))"
    "students db_family 3 = Some (pupil (js ''S2'') (Some 1) (Some 4))"
    "parents db_family 4 = Some (mari [2, 3])"
    by (simp_all add: db_family_def)
  have v: "group_valid (club (js ''G'') [2, 3] [4])"
    by (simp add: group_valid_def club_def js_def)
  have l: "set (g_students (club (js ''G'') [2, 3] [4])) = {2, 3}"
    by (auto simp: club_def)
  have e: "{s. \<exists>st. students db_family s = Some st \<and> s_group st = Some 1} = {2, 3}"
    by (auto simp: db_family_def pupil_def split: if_splits)
  then have o: "\<forall>s st. students db_family s = Some st \<longrightarrow> s_group st = Some 1 \<longrightarrow> s = 2 \<or> s = 3"
    by blast
  have p: "s_group (pupil (js ''S1'') (Some 1) (Some 4)) = Some 1"
    "s_parent (pupil (js ''S1'') (Some 1) (Some 4)) = Some 4"
    "s_group (pupil (js ''S2'') (Some 1) (Some 4)) = Some 1"
    "s_parent (pupil (js ''S2'') (Some 1) (Some 4)) = Some 4"
    by (simp_all add: pupil_def)
  have n: "(2::nat) \<noteq> 3" by simp
  from two_replaces_scenario [OF a b c(1) v l n c(2) p(1,2) c(3) p(3,4) o, of True]
  show ?thesis
    using a b c v l e by simp
qed

end
